theory Spec2Isabelle
  imports Complex_Main
begin

unbundle bit_operations_syntax

section \<open>The ambiguity alphabet\<close>

text \<open>
  C strings are modelled as \<^typ>\<open>string\<close>: the symbols before the terminating NUL.
  The gap symbol of an alignment is the minus sign.
\<close>

definition NUL :: char where
  "NUL = CHR 0x00"

definition gap :: char where
  "gap = CHR ''-''"

text \<open>
  \<^verbatim>\<open>x & ~32\<close> on a \<^verbatim>\<open>char\<close>: bit 5 is cleared, which maps an ASCII lower-case
  letter to its upper-case letter.
\<close>

fun clear_bit5 :: "char \<Rightarrow> char" where
  "clear_bit5 (Char b0 b1 b2 b3 b4 b5 b6 b7) = Char b0 b1 b2 b3 b4 False b6 b7"

text \<open>
  Modelled from the spec: \<^verbatim>\<open>char_to_bitmap\<close> is declared in a header that is not
  among the sources (\<^verbatim>\<open>mia.h\<close>). The spec asks for the four bases as single bits,
  U treated as T, the standard ambiguity codes as unions of the four bases, and every
  other symbol failing closed (the empty mask).
\<close>

definition char_to_bitmap :: "char \<Rightarrow> nat" where
  "char_to_bitmap c =
     (if c = CHR ''A'' then 1 else if c = CHR ''C'' then 2
      else if c = CHR ''G'' then 4 else if c = CHR ''T'' then 8
      else if c = CHR ''U'' then 8
      else if c = CHR ''M'' then 3 else if c = CHR ''R'' then 5
      else if c = CHR ''W'' then 9 else if c = CHR ''S'' then 6
      else if c = CHR ''Y'' then 10 else if c = CHR ''K'' then 12
      else if c = CHR ''V'' then 7 else if c = CHR ''H'' then 11
      else if c = CHR ''D'' then 13 else if c = CHR ''B'' then 14
      else if c = CHR ''N'' then 15 else 0)"

text \<open>\<^verbatim>\<open>match\<close> of the aligner: the two masks share a bit.\<close>

definition match :: "char \<Rightarrow> char \<Rightarrow> bool" where
  "match a b = (char_to_bitmap a AND char_to_bitmap b \<noteq> 0)"

section \<open>The aligner \<^verbatim>\<open>myers_diff\<close>\<close>

datatype myers_align_mode = myers_align_globally | myers_align_is_prefix | myers_align_has_prefix

definition UINT_MAX :: nat where
  "UINT_MAX = 4294967295"

definition max3 :: "int \<Rightarrow> int \<Rightarrow> int \<Rightarrow> int" where
  "max3 a b c = (if a < b then max b c else max a c)"

text \<open>
  The table \<^verbatim>\<open>v[k][d]\<close> is a variable-length array on the stack that is never
  initialised: the model takes what the stack held as a parameter, and a cell that was
  never written reads as that. Diagonals \<open>k\<close> are signed, the distance \<open>d\<close> counts up
  from 0. Values are kept as unbounded integers (lengths and distances stay far below
  the range of \<^verbatim>\<open>int\<close>).
\<close>

type_synonym vtable = "int \<Rightarrow> nat \<Rightarrow> int"

definition v_store :: "vtable \<Rightarrow> int \<Rightarrow> nat \<Rightarrow> int \<Rightarrow> vtable" where
  "v_store v k d x = v(k := (v k)(d := x))"

text \<open>
  A read outside a string (before its first symbol or after its terminator) is undefined
  behaviour in C; the model makes it a fault.
\<close>

datatype fault = Read_out_of_bounds

definition seq_at :: "string \<Rightarrow> int \<Rightarrow> char option" where
  "seq_at s i =
     (if 0 \<le> i \<and> i < int (length s) then Some (s ! nat i)
      else if i = int (length s) then Some NUL
      else None)"

text \<open>The start of the furthest-reaching \<open>d\<close>-path on diagonal \<open>k\<close> (lines 160 to 165).\<close>

definition start_x :: "vtable \<Rightarrow> nat \<Rightarrow> int \<Rightarrow> int" where
  "start_x v d k =
     (if d = 0 then 0
      else if k = - int d then v (k + 1) (d - 1)
      else if k = - int d + 1 then max (v k (d - 1) + 1) (v (k + 1) (d - 1))
      else if k = int d then v (k - 1) (d - 1) + 1
      else if k = int d - 1 then max (v k (d - 1) + 1) (v (k - 1) (d - 1) + 1)
      else max3 (v (k - 1) (d - 1) + 1) (v k (d - 1) + 1) (v (k + 1) (d - 1)))"

text \<open>
  The inner \<^verbatim>\<open>while\<close> of line 168: follow the diagonal while the symbols match.
  The guard bounds \<open>x\<close> and \<open>y\<close> from above only.
\<close>

function snake :: "string \<Rightarrow> string \<Rightarrow> int \<Rightarrow> int \<Rightarrow> fault + int \<times> int" where
  "snake seq_a seq_b x y =
     (if x < int (length seq_b) \<and> y < int (length seq_a) then
        (case (seq_at seq_b x, seq_at seq_a y) of
           (Some cb, Some ca) \<Rightarrow>
             if match cb ca then snake seq_a seq_b (x + 1) (y + 1) else Inr (x, y)
         | _ \<Rightarrow> Inl Read_out_of_bounds)
      else Inr (x, y))"
  by pat_completeness auto
termination
  by (relation "measure (\<lambda>(seq_a, seq_b, x, y). nat (int (length seq_b) - x))") auto

declare snake.simps [simp del]

text \<open>
  The output buffers. A buffer is the memory around the pointer the caller passed, read
  at offsets relative to that pointer; a cursor is the backward-moving \<^verbatim>\<open>out_a\<close> or
  \<^verbatim>\<open>out_b\<close> together with the offsets written so far.
\<close>

type_synonym buffer = "int \<Rightarrow> char"

record cursor =
  mem :: buffer
  pos :: int
  written :: "int list"

text \<open>\<^verbatim>\<open>*--out = c\<close>\<close>

definition push :: "char \<Rightarrow> cursor \<Rightarrow> cursor" where
  "push c out =
     \<lparr>mem = (mem out)(pos out - 1 := c), pos = pos out - 1,
      written = (pos out - 1) # written out\<rparr>"

text \<open>
  The traceback loop of lines 179 to 212, from the cell where the forward pass stopped.
\<close>

function trace_back ::
  "vtable \<Rightarrow> string \<Rightarrow> string \<Rightarrow> int \<Rightarrow> nat \<Rightarrow> int \<Rightarrow> int \<Rightarrow> cursor \<Rightarrow> cursor
     \<Rightarrow> fault + int \<times> cursor \<times> cursor" where
  "trace_back v seq_a seq_b k dd x y out_a out_b =
     (if dd = 0 then Inr (x, out_a, out_b)
      else if k \<noteq> - int dd \<and> k \<noteq> int dd \<and> x = v k (dd - 1) + 1 then
        (case (seq_at seq_b (x - 1), seq_at seq_a (y - 1)) of
           (Some cb, Some ca) \<Rightarrow>
             trace_back v seq_a seq_b k (dd - 1) (x - 1) (y - 1) (push ca out_a) (push cb out_b)
         | _ \<Rightarrow> Inl Read_out_of_bounds)
      else if k > - int dd + 1 \<and> x = v (k - 1) (dd - 1) + 1 then
        (case seq_at seq_b (x - 1) of
           Some cb \<Rightarrow>
             trace_back v seq_a seq_b (k - 1) (dd - 1) (x - 1) y (push gap out_a) (push cb out_b)
         | None \<Rightarrow> Inl Read_out_of_bounds)
      else if k < int dd - 1 \<and> x = v (k + 1) (dd - 1) then
        (case seq_at seq_a (y - 1) of
           Some ca \<Rightarrow>
             trace_back v seq_a seq_b (k + 1) (dd - 1) x (y - 1) (push ca out_a) (push gap out_b)
         | None \<Rightarrow> Inl Read_out_of_bounds)
      else
        (case (seq_at seq_b (x - 1), seq_at seq_a (y - 1)) of
           (Some cb, Some ca) \<Rightarrow>
             trace_back v seq_a seq_b k dd (x - 1) (y - 1) (push ca out_a) (push cb out_b)
         | _ \<Rightarrow> Inl Read_out_of_bounds))"
  by pat_completeness auto
termination
  by (relation "measures [\<lambda>(v, seq_a, seq_b, k, dd, x, y, out_a, out_b). dd,
                          \<lambda>(v, seq_a, seq_b, k, dd, x, y, out_a, out_b). nat x]")
     (auto simp: seq_at_def split: if_splits)

declare trace_back.simps [simp del]

text \<open>The final \<^verbatim>\<open>while( x > 0 )\<close> of lines 213 to 218: it indexes both strings by \<open>x\<close>.\<close>

function copy_rest ::
  "string \<Rightarrow> string \<Rightarrow> int \<Rightarrow> cursor \<Rightarrow> cursor \<Rightarrow> fault + cursor \<times> cursor" where
  "copy_rest seq_a seq_b x out_a out_b =
     (if x > 0 then
        (case (seq_at seq_b (x - 1), seq_at seq_a (x - 1)) of
           (Some cb, Some ca) \<Rightarrow> copy_rest seq_a seq_b (x - 1) (push ca out_a) (push cb out_b)
         | _ \<Rightarrow> Inl Read_out_of_bounds)
      else Inr (out_a, out_b))"
  by pat_completeness auto
termination
  by (relation "measure (\<lambda>(seq_a, seq_b, x, out_a, out_b). nat x)") auto

declare copy_rest.simps [simp del]

text \<open>
  \<^verbatim>\<open>memmove( bt, out, bt + len + d + 1 - out )\<close>: the bytes from the cursor up to offset
  \<open>len + d\<close> are copied to offset 0 onwards, as if through a temporary.
\<close>

definition memmove :: "cursor \<Rightarrow> int \<Rightarrow> cursor" where
  "memmove out n =
     \<lparr>mem = (\<lambda>i. if 0 \<le> i \<and> i < n then mem out (pos out + i) else mem out i),
      pos = pos out,
      written = [0 .. n - 1] @ written out\<rparr>"

text \<open>
  What a call leaves behind: the returned distance (or \<^verbatim>\<open>UINT_MAX\<close>), the two buffers,
  and the offsets written in each.
\<close>

record outcome =
  ret :: nat
  bt_a :: buffer
  bt_b :: buffer
  written_a :: "int list"
  written_b :: "int list"

text \<open>Lines 175 to 221: terminators, traceback, copy to the front.\<close>

definition back_trace ::
  "vtable \<Rightarrow> string \<Rightarrow> string \<Rightarrow> buffer \<Rightarrow> buffer \<Rightarrow> nat \<Rightarrow> int \<Rightarrow> int \<Rightarrow> int
     \<Rightarrow> fault + outcome" where
  "back_trace v seq_a seq_b buf_a buf_b d k x y =
     (let len_a = int (length seq_a); len_b = int (length seq_b);
          out_a = \<lparr>mem = buf_a, pos = len_a + int d + 1, written = []\<rparr>;
          out_b = \<lparr>mem = buf_b, pos = len_b + int d + 1, written = []\<rparr>;
          out_a = push NUL out_a;
          out_a = push NUL out_a
      in case trace_back v seq_a seq_b k d x y out_a out_b of
           Inl e \<Rightarrow> Inl e
         | Inr (x, out_a, out_b) \<Rightarrow>
             (case copy_rest seq_a seq_b x out_a out_b of
                Inl e \<Rightarrow> Inl e
              | Inr (out_a, out_b) \<Rightarrow>
                  (let fin_a = memmove out_a (len_a + int d + 1 - pos out_a);
                       fin_b = memmove out_b (len_b + int d + 1 - pos out_b)
                   in Inr \<lparr>ret = d, bt_a = mem fin_a, bt_b = mem fin_b,
                           written_a = written fin_a, written_b = written fin_b\<rparr>)))"

text \<open>The boundary condition of lines 171 to 173.\<close>

definition at_end :: "myers_align_mode \<Rightarrow> string \<Rightarrow> string \<Rightarrow> int \<Rightarrow> int \<Rightarrow> bool" where
  "at_end mode seq_a seq_b x y =
     ((mode = myers_align_is_prefix \<or> y = int (length seq_a)) \<and>
      (mode = myers_align_has_prefix \<or> x = int (length seq_b)))"

text \<open>
  The loop over the diagonals of one \<open>d\<close> (line 158): it either stops at a cell that
  meets the boundary condition, or hands the table on to the next \<open>d\<close>.
\<close>

datatype scan = Next_d vtable | Hit vtable int int int

function diagonals ::
  "string \<Rightarrow> myers_align_mode \<Rightarrow> string \<Rightarrow> vtable \<Rightarrow> nat \<Rightarrow> int \<Rightarrow> fault + scan" where
  "diagonals seq_a mode seq_b v d k =
     (if k \<le> min (int d) (int (length seq_b)) then
        (case snake seq_a seq_b (start_x v d k) (start_x v d k - k) of
           Inl e \<Rightarrow> Inl e
         | Inr (x, y) \<Rightarrow>
             if at_end mode seq_a seq_b x y then Inr (Hit (v_store v k d x) k x y)
             else diagonals seq_a mode seq_b (v_store v k d x) d (k + 1))
      else Inr (Next_d v))"
  by pat_completeness auto
termination
  by (relation "measure (\<lambda>(seq_a, mode, seq_b, v, d, k).
                  nat (min (int d) (int (length seq_b)) + 1 - k))") auto

declare diagonals.simps [simp del]

text \<open>
  The loop over \<open>d\<close> (line 156). The source tests \<^verbatim>\<open>d != maxd\<close>; \<open>d\<close> counts up from 0
  in steps of one, so that is \<open>d < maxd\<close>.
\<close>

function d_paths ::
  "string \<Rightarrow> myers_align_mode \<Rightarrow> string \<Rightarrow> nat \<Rightarrow> buffer \<Rightarrow> buffer \<Rightarrow> vtable \<Rightarrow> nat
     \<Rightarrow> fault + outcome" where
  "d_paths seq_a mode seq_b maxd buf_a buf_b v d =
     (if d < maxd then
        (case diagonals seq_a mode seq_b v d (max (- int d) (- int (length seq_a))) of
           Inl e \<Rightarrow> Inl e
         | Inr (Hit v' k x y) \<Rightarrow> back_trace v' seq_a seq_b buf_a buf_b d k x y
         | Inr (Next_d v') \<Rightarrow> d_paths seq_a mode seq_b maxd buf_a buf_b v' (d + 1))
      else Inr \<lparr>ret = UINT_MAX, bt_a = buf_a, bt_b = buf_b, written_a = [], written_b = []\<rparr>)"
  by pat_completeness auto
termination
  by (relation "measure (\<lambda>(seq_a, mode, seq_b, maxd, buf_a, buf_b, v, d). maxd - d)") auto

declare d_paths.simps [simp del]

text \<open>
  \<^verbatim>\<open>myers_diff( seq_a, mode, seq_b, maxd, bt_a, bt_b )\<close>; the first argument is what the
  stack held where the table is placed.
\<close>

definition myers_diff ::
  "vtable \<Rightarrow> string \<Rightarrow> myers_align_mode \<Rightarrow> string \<Rightarrow> nat \<Rightarrow> buffer \<Rightarrow> buffer
     \<Rightarrow> fault + outcome" where
  "myers_diff stack seq_a mode seq_b maxd buf_a buf_b =
     d_paths seq_a mode seq_b
       (if maxd > length seq_a + length seq_b then length seq_a + length seq_b else maxd)
       buf_a buf_b stack 0"

text \<open>
  How a caller reads an output buffer: as a C string, from offset 0 up to the first NUL.
  The reader is bounded by the buffer's capacity, so that it is total; it is the caller
  that then strips the gap symbols.
\<close>

definition c_string :: "buffer \<Rightarrow> nat \<Rightarrow> string" where
  "c_string m cap = takeWhile (\<lambda>c. c \<noteq> NUL) (map (\<lambda>i. m (int i)) [0 ..< cap])"

definition strip_gaps :: "string \<Rightarrow> string" where
  "strip_gaps s = filter (\<lambda>c. c \<noteq> gap) s"

text \<open>
  What a cursor has written so far: the bytes from the cursor up to, and without, the
  offset \<open>hi\<close> where it started.
\<close>

definition content :: "cursor \<Rightarrow> int \<Rightarrow> string" where
  "content out hi = map (mem out) [pos out .. hi - 1]"

text \<open>
  The relation between the cursors before and after a stretch of the traceback that
  starts at \<open>(x, y)\<close> and stops at \<open>(x', x')\<close>: each cursor has a row of new columns
  in front of what it held, the two rows have the same length and hold gaps and symbols
  of their sequence only, and when a sequence has no gap symbol of its own, its row
  stripped of gaps is the part of the sequence that the stretch walked over.
\<close>

definition rows_from ::
  "string \<Rightarrow> string \<Rightarrow> int \<Rightarrow> int \<Rightarrow> int \<Rightarrow> int \<Rightarrow> cursor \<Rightarrow> cursor
     \<Rightarrow> int \<Rightarrow> cursor \<Rightarrow> cursor \<Rightarrow> bool" where
  "rows_from seq_a seq_b top_a top_b x y out_a out_b x' out_a' out_b' =
     (\<exists>row_a row_b.
        content out_a' top_a = row_a @ content out_a top_a \<and>
        content out_b' top_b = row_b @ content out_b top_b \<and>
        pos out_a' = pos out_a - int (length row_a) \<and>
        pos out_b' = pos out_b - int (length row_b) \<and>
        length row_a = length row_b \<and>
        0 \<le> x' \<and> x' \<le> x \<and> x' \<le> y \<and>
        set row_a \<subseteq> insert gap (set seq_a) \<and> set row_b \<subseteq> insert gap (set seq_b) \<and>
        (gap \<notin> set seq_a \<longrightarrow> drop (nat x') seq_a = strip_gaps row_a @ drop (nat y) seq_a) \<and>
        (gap \<notin> set seq_b \<longrightarrow> drop (nat x') seq_b = strip_gaps row_b @ drop (nat x) seq_b))"

text \<open>
  A cursor that got from \<open>out\<close> to \<open>out'\<close> by writes downwards only: the offsets written
  on the way are those from where it stands now up to where it stood.
\<close>

definition pushed :: "cursor \<Rightarrow> cursor \<Rightarrow> bool" where
  "pushed out out' =
     (pos out' \<le> pos out \<and> written out' = [pos out' .. pos out - 1] @ written out)"

text \<open>
  The edit distance in the spec's words: the least number of insertions, deletions and
  substitutions that consume both sequences, where two symbols that match under the
  ambiguity alphabet cost nothing.
\<close>

fun spec_edit_distance :: "string \<Rightarrow> string \<Rightarrow> nat" where
  "spec_edit_distance [] bs = length bs"
| "spec_edit_distance (a # as) [] = Suc (length as)"
| "spec_edit_distance (a # as) (b # bs) =
     min (min (Suc (spec_edit_distance as (b # bs))) (Suc (spec_edit_distance (a # as) bs)))
         (spec_edit_distance as bs + (if match b a then 0 else 1))"

section \<open>The contamination checker\<close>

subsection \<open>Diagnostic positions\<close>

definition is_diagnostic :: "char \<Rightarrow> char \<Rightarrow> bool" where
  "is_diagnostic c1 c2 =
     (c1 \<noteq> c2 \<and> c1 \<noteq> CHR ''N'' \<and> c2 \<noteq> CHR ''N'' \<and> c1 \<noteq> gap \<and> c2 \<noteq> gap)"

definition is_transversion :: "char \<Rightarrow> char \<Rightarrow> bool" where
  "is_transversion a b =
     (let u = clear_bit5 a; v = clear_bit5 b
      in if u = CHR ''A'' then v \<noteq> CHR ''G''
         else if u = CHR ''C'' then v \<noteq> CHR ''T''
         else if u = CHR ''G'' then v \<noteq> CHR ''A''
         else if u = CHR ''T'' \<or> u = CHR ''U'' then v \<noteq> CHR ''C''
         else False)"

text \<open>
  \<^verbatim>\<open>dp_list\<close> is a \<^verbatim>\<open>std::map< int, std::pair< char, char > >\<close>: assembly coordinate to
  (reference symbol, assembly symbol).
\<close>

type_synonym dp_list = "int \<rightharpoonup> char \<times> char"

text \<open>
  The loop of \<^verbatim>\<open>mk_dp_list\<close> (lines 112 to 119); \<open>aln1\<close> is the reference row of the
  alignment and \<open>aln2\<close> the assembly row. The counter is the parameter \<open>span_from\<close>
  itself.
\<close>

fun mk_dp_loop :: "string \<Rightarrow> string \<Rightarrow> bool \<Rightarrow> int \<Rightarrow> int \<Rightarrow> dp_list \<Rightarrow> dp_list" where
  "mk_dp_loop (c1 # aln1) (c2 # aln2) transversions span_from span_to l =
     (if span_from \<noteq> span_to then
        mk_dp_loop aln1 aln2 transversions
          (if c2 \<noteq> gap then span_from + 1 else span_from) span_to
          (if is_diagnostic c1 c2 \<and> (if transversions then is_transversion c1 c2 else True)
           then l(span_from \<mapsto> (c1, c2)) else l)
      else l)"
| "mk_dp_loop aln1 aln2 transversions span_from span_to l = l"

definition mk_dp_list :: "string \<Rightarrow> string \<Rightarrow> bool \<Rightarrow> int \<Rightarrow> int \<Rightarrow> dp_list" where
  "mk_dp_list aln1 aln2 transversions span_from span_to =
     mk_dp_loop aln1 aln2 transversions span_from span_to Map.empty"

text \<open>
  The index in the spec's words. The assembly coordinate of column \<open>i\<close> is the number of
  non-gap assembly symbols strictly before it; a key holds the symbols of the column with
  that coordinate that lies inside the span and satisfies the diagnostic predicate.
\<close>

definition assembly_coord :: "string \<Rightarrow> nat \<Rightarrow> int" where
  "assembly_coord aln2 i = int (length (filter (\<lambda>c. c \<noteq> gap) (take i aln2)))"

definition spec_dp_index :: "string \<Rightarrow> string \<Rightarrow> bool \<Rightarrow> int \<Rightarrow> int \<Rightarrow> dp_list" where
  "spec_dp_index aln1 aln2 transversions span_from span_to key =
     (case filter (\<lambda>i. assembly_coord aln2 i = key \<and> span_from \<le> key \<and> key < span_to \<and>
                        is_diagnostic (aln1 ! i) (aln2 ! i) \<and>
                        (if transversions then is_transversion (aln1 ! i) (aln2 ! i) else True))
             [0 ..< min (length aln1) (length aln2)] of
        [] \<Rightarrow> None
      | i # _ \<Rightarrow> Some (aln1 ! i, aln2 ! i))"

text \<open>
  What the loop does with column \<open>i\<close> when its counter starts at \<open>c\<close>: the column is
  recorded under \<open>key\<close> when \<open>c\<close> plus its assembly coordinate is \<open>key\<close>, that sum is
  below \<open>span_to\<close>, and the symbols pass the filter.
\<close>

definition in_index :: "string \<Rightarrow> string \<Rightarrow> bool \<Rightarrow> int \<Rightarrow> int \<Rightarrow> int \<Rightarrow> nat \<Rightarrow> bool" where
  "in_index aln1 aln2 tv c span_to key i =
     (c + assembly_coord aln2 i = key \<and> key < span_to \<and>
      is_diagnostic (aln1 ! i) (aln2 ! i) \<and>
      (if tv then is_transversion (aln1 ! i) (aln2 ! i) else True))"





subsection \<open>Classifying a fragment\<close>

text \<open>
  Line 147, the local \<^verbatim>\<open>x_\<close>: G becomes R (A or G) and C becomes Y (C or T), the
  symbols a deaminated read can show for that base.
\<close>

definition two_fold :: "char \<Rightarrow> char" where
  "two_fold x = (if x = CHR ''G'' then CHR ''R'' else if x = CHR ''C'' then CHR ''Y'' else x)"

definition consistent :: "bool \<Rightarrow> char \<Rightarrow> char \<Rightarrow> bool" where
  "consistent adna x y =
     (x = gap \<or> y = gap \<or>
      char_to_bitmap (if adna then two_fold x else x) AND char_to_bitmap y \<noteq> 0)"

datatype whatsit = unknown | clean | dirt | conflict | nonsense

definition merge_whatsit :: "whatsit \<Rightarrow> whatsit \<Rightarrow> whatsit" where
  "merge_whatsit a b =
     (if a = b then a
      else if a = unknown then b
      else if b = unknown then a
      else if a = nonsense \<or> b = nonsense then nonsense
      else conflict)"

text \<open>
  Lines 389 and 390: the two consistency checks at a diagnostic position, of the assembly
  base against the fragment base as aligned to the assembly, and of the reference base
  against the fragment base as aligned to the reference.
\<close>

definition maybe_clean :: "bool \<Rightarrow> char \<Rightarrow> char \<Rightarrow> bool" where
  "maybe_clean adna in_ass in_frag_v_ass = consistent adna in_ass in_frag_v_ass"

definition maybe_dirt :: "bool \<Rightarrow> char \<Rightarrow> char \<Rightarrow> bool" where
  "maybe_dirt adna in_ref in_frag_v_ref = consistent adna in_ref in_frag_v_ref"

text \<open>Lines 400 to 405: the six statements, in the source's order.\<close>

definition vote :: "bool \<Rightarrow> bool \<Rightarrow> whatsit \<times> int \<Rightarrow> whatsit \<times> int" where
  "vote mc md kv =
     (let klass = fst kv; votes = snd kv;
          klass = (if mc \<and> \<not> md \<and> klass = unknown then clean else klass);
          klass = (if mc \<and> \<not> md \<and> klass = dirt then conflict else klass);
          klass = (if \<not> mc \<and> md \<and> klass = unknown then dirt else klass);
          klass = (if \<not> mc \<and> md \<and> klass = clean then conflict else klass);
          klass = (if \<not> mc \<and> \<not> md then nonsense else klass);
          votes = (if md \<noteq> mc then votes + 1 else votes)
      in (klass, votes))"

text \<open>
  Lines 379 to 407, the part of the walk that looks at one column: \<open>paln1\<close> and \<open>paln2\<close>
  are the column's symbols in the global alignment, the other four the current symbols of
  the reference window, the fragment against it, the assembly, and the fragment against
  the assembly. The pair is the fragment's class and vote count so far.
\<close>

definition classify_position ::
  "bool \<Rightarrow> char \<Rightarrow> char \<Rightarrow> char \<Rightarrow> char \<Rightarrow> char \<Rightarrow> char \<Rightarrow> whatsit \<times> int
     \<Rightarrow> whatsit \<times> int" where
  "classify_position adna paln1 paln2 in_ref in_frag_v_ref in_ass in_frag_v_ass kv =
     (if is_diagnostic paln1 paln2 then
        (if in_frag_v_ref \<noteq> in_frag_v_ass then kv
         else vote (maybe_clean adna in_ass in_frag_v_ass)
                   (maybe_dirt adna in_ref in_frag_v_ref) kv)
      else kv)"

subsection \<open>Pairing the halves and tallying\<close>

text \<open>
  Lines 427 to 458, the end of the loop over the fragments. A fragment arrives there with
  its identifier, its segment role and the class and votes the walk has just computed for
  it; \<open>summary\<close> is the array of class counts and \<open>bfrags\<close> the map of cached back halves.
\<close>

record fragment =
  frag_id :: string
  segment :: char
  frag_klass :: whatsit
  frag_votes :: int

type_synonym summary = "whatsit \<Rightarrow> int"

type_synonym bfrags = "string \<rightharpoonup> whatsit \<times> int"

definition tally :: "summary \<times> bfrags \<Rightarrow> fragment \<Rightarrow> summary \<times> bfrags" where
  "tally st s =
     (let summary = fst st; bfrags = snd st;
          klass = frag_klass s; votes = frag_votes s;
          i = bfrags (frag_id s)
      in if segment s = CHR ''b'' then (summary, bfrags(frag_id s \<mapsto> (klass, votes)))
         else if segment s = CHR ''f'' then
           (case i of
              None \<Rightarrow> (summary(klass := summary klass + 1), bfrags)
            | Some back \<Rightarrow>
                (let votes = votes + snd back;
                     klass = merge_whatsit klass (fst back)
                 in (summary(klass := summary klass + 1), bfrags)))
         else if segment s = CHR ''a'' then (summary(klass := summary klass + 1), bfrags)
         else (summary, bfrags))"

definition tally_all :: "summary \<times> bfrags \<Rightarrow> fragment list \<Rightarrow> summary \<times> bfrags" where
  "tally_all st fs = foldl tally st fs"

subsection \<open>The summary\<close>

text \<open>
  The values a \<^verbatim>\<open>double\<close> can take, by kind: the finite values of IEEE 754 binary64,
  as the real numbers they stand for, the two infinities and NaN. Every operation computes
  the exact result and rounds it once, to the nearest value with a significand of 53 bits,
  a tie going to the even significand; below \<open>2 ^ - 1022\<close> the spacing stays that of the
  smallest normal numbers, and a rounded result above the largest finite value is an
  infinity. A division by zero gives an infinity, or NaN when the dividend is zero too,
  and NaN propagates through every operation. The sign of zero is not modelled.
\<close>

text \<open>The number of binary digits of \<open>n\<close>.\<close>

function bits :: "nat \<Rightarrow> int" where
  "bits n = (if n = 0 then 0 else 1 + bits (n div 2))"
  by pat_completeness auto
termination
  by (relation "measure id") auto

declare bits.simps [simp del]

text \<open>The binary exponent of a positive number: \<open>2 ^ ilog2 x \<le> x < 2 ^ (ilog2 x + 1)\<close>.\<close>

definition ilog2 :: "real \<Rightarrow> int" where
  "ilog2 x = (if 1 \<le> x then bits (nat \<lfloor>x\<rfloor>) - 1 else - bits (nat (\<lceil>1 / x\<rceil> - 1)))"

definition pow2 :: "int \<Rightarrow> real" where
  "pow2 e = (if 0 \<le> e then 2 ^ nat e else 1 / 2 ^ nat (- e))"

text \<open>The nearest integer, a tie going to the even one.\<close>

definition nearest_even :: "real \<Rightarrow> int" where
  "nearest_even m =
     (let f = \<lfloor>m\<rfloor>; r = m - of_int f
      in if r < 1 / 2 then f else if 1 / 2 < r then f + 1 else if even f then f else f + 1)"

text \<open>
  Rounding to binary64: the nearest multiple of the unit in the last place of \<open>x\<close>, which
  is \<open>2 ^ (e - 52)\<close> for the exponent \<open>e\<close> of \<open>x\<close>, and \<open>2 ^ - 1074\<close> in the subnormal range.
\<close>

definition rnd :: "real \<Rightarrow> real" where
  "rnd x =
     (if x = 0 then 0
      else let u = pow2 (max (ilog2 \<bar>x\<bar>) (- 1022) - 52)
           in of_int (nearest_even (x / u)) * u)"

text \<open>The integer square root, two bits at a time.\<close>

function isqrt :: "nat \<Rightarrow> nat" where
  "isqrt n =
     (if n < 2 then n
      else let r = 2 * isqrt (n div 4) in if (r + 1) * (r + 1) \<le> n then r + 1 else r)"
  by pat_completeness auto
termination
  by (relation "measure id") auto

declare isqrt.simps [simp del]

text \<open>
  The square root rounded to binary64, as \<^verbatim>\<open>sqrt\<close> of the C library returns it: with \<open>u\<close>
  the unit in the last place of the root, the significand is the integer nearest to the
  root of \<open>s = x / u\<^sup>2\<close>; its integer part is the integer square root of \<open>\<lfloor>s\<rfloor>\<close>, and the
  rest is compared with one half by comparing \<open>s\<close> with the square of \<open>f + 1/2\<close>.
\<close>

definition sqrt_rnd :: "real \<Rightarrow> real" where
  "sqrt_rnd x =
     (if x = 0 then 0
      else let u = pow2 (ilog2 x div 2 - 52);
               s = x / (u * u);
               f = int (isqrt (nat \<lfloor>s\<rfloor>));
               h = (of_int f + 1 / 2) * (of_int f + 1 / 2)
           in of_int (if s < h then f else if h < s then f + 1
                      else if even f then f else f + 1) * u)"

datatype dbl = Fin real | PInf | NInf | NaN

text \<open>The largest finite value, \<^verbatim>\<open>DBL_MAX\<close>.\<close>

definition DBL_MAX :: real where
  "DBL_MAX = (2 ^ 53 - 1) * 2 ^ 971"

text \<open>The \<^verbatim>\<open>double\<close> that an exact finite result becomes.\<close>

definition fin64 :: "real \<Rightarrow> dbl" where
  "fin64 x =
     (let y = rnd x in if DBL_MAX < y then PInf else if y < - DBL_MAX then NInf else Fin y)"

fun dneg :: "dbl \<Rightarrow> dbl" where
  "dneg (Fin a) = Fin (- a)"
| "dneg PInf = NInf"
| "dneg NInf = PInf"
| "dneg NaN = NaN"

fun dadd :: "dbl \<Rightarrow> dbl \<Rightarrow> dbl" where
  "dadd (Fin a) (Fin b) = fin64 (a + b)"
| "dadd NaN b = NaN"
| "dadd a NaN = NaN"
| "dadd PInf NInf = NaN"
| "dadd NInf PInf = NaN"
| "dadd PInf b = PInf"
| "dadd a PInf = PInf"
| "dadd NInf b = NInf"
| "dadd a NInf = NInf"

definition dsub :: "dbl \<Rightarrow> dbl \<Rightarrow> dbl" where
  "dsub a b = dadd a (dneg b)"

fun dmul :: "dbl \<Rightarrow> dbl \<Rightarrow> dbl" where
  "dmul (Fin a) (Fin b) = fin64 (a * b)"
| "dmul NaN b = NaN"
| "dmul a NaN = NaN"
| "dmul (Fin a) PInf = (if a = 0 then NaN else if 0 < a then PInf else NInf)"
| "dmul (Fin a) NInf = (if a = 0 then NaN else if 0 < a then NInf else PInf)"
| "dmul PInf (Fin b) = (if b = 0 then NaN else if 0 < b then PInf else NInf)"
| "dmul NInf (Fin b) = (if b = 0 then NaN else if 0 < b then NInf else PInf)"
| "dmul PInf PInf = PInf"
| "dmul PInf NInf = NInf"
| "dmul NInf PInf = NInf"
| "dmul NInf NInf = PInf"

fun ddiv :: "dbl \<Rightarrow> dbl \<Rightarrow> dbl" where
  "ddiv (Fin a) (Fin b) =
     (if b = 0 then (if a = 0 then NaN else if 0 < a then PInf else NInf) else fin64 (a / b))"
| "ddiv NaN b = NaN"
| "ddiv a NaN = NaN"
| "ddiv (Fin a) PInf = Fin 0"
| "ddiv (Fin a) NInf = Fin 0"
| "ddiv PInf (Fin b) = (if 0 \<le> b then PInf else NInf)"
| "ddiv NInf (Fin b) = (if 0 \<le> b then NInf else PInf)"
| "ddiv a b = NaN"

fun dsqrt :: "dbl \<Rightarrow> dbl" where
  "dsqrt (Fin a) = (if a < 0 then NaN else Fin (sqrt_rnd a))"
| "dsqrt PInf = PInf"
| "dsqrt NInf = NaN"
| "dsqrt NaN = NaN"

text \<open>
  Lines 467 to 477: the three numbers handed to \<^verbatim>\<open>printf\<close> on the line of the class
  \<open>dirt\<close>, from the counts of \<open>dirt\<close> and \<open>clean\<close>: lower bound, estimate, upper bound.
  Every operation of the source is one operation here, in the order in which C evaluates
  the expressions; the constant \<^verbatim>\<open>1.96\<close> and the two counts are converted to \<^verbatim>\<open>double\<close>,
  the constants \<^verbatim>\<open>0.5\<close>, \<^verbatim>\<open>0.25\<close>, \<^verbatim>\<open>1\<close> and \<^verbatim>\<open>100.0\<close> are values of the type as they stand.
\<close>

definition wilson :: "int \<Rightarrow> int \<Rightarrow> dbl \<times> dbl \<times> dbl" where
  "wilson n_dirt n_clean =
     (let z = fin64 1.96;
          k = fin64 (of_int n_dirt);
          n = dadd k (fin64 (of_int n_clean));
          p' = ddiv k n;
          c = dadd p' (ddiv (dmul (dmul (Fin 0.5) z) z) n);
          w = dmul z (dsqrt (dadd (ddiv (dmul p' (dsub (Fin 1) p')) n)
                                  (ddiv (dmul (dmul (Fin 0.25) z) z) (dmul n n))));
          d = dadd (Fin 1) (ddiv (dmul z z) n)
      in (ddiv (dmul (Fin 100.0) (dsub c w)) d,
          dmul (Fin 100.0) p',
          ddiv (dmul (Fin 100.0) (dadd c w)) d))"

text \<open>
  What the specification asks of the three numbers: all finite, and
  \<open>0 \<le> lower \<le> p \<le> upper \<le> 100\<close>.
\<close>

definition spec_wilson_bounds :: "dbl \<times> dbl \<times> dbl \<Rightarrow> bool" where
  "spec_wilson_bounds r =
     (case r of
        (Fin lower, Fin p, Fin upper) \<Rightarrow>
          0 \<le> lower \<and> lower \<le> p \<and> p \<le> upper \<and> upper \<le> 100
      | _ \<Rightarrow> False)"

definition estimate :: "summary \<Rightarrow> dbl \<times> dbl \<times> dbl" where
  "estimate summary = wilson (summary dirt) (summary clean)"

text \<open>\<^verbatim>\<open>int summary[ maxwhatsits ] = {0}\<close> and an empty \<^verbatim>\<open>bfrags\<close>.\<close>

definition initial :: "summary \<times> bfrags" where
  "initial = (\<lambda>klass. 0, Map.empty)"

section \<open>Properties of the aligner\<close>

subsection \<open>Evaluation\<close>

lemmas myers_eval =
  myers_diff_def d_paths.simps diagonals.simps snake.simps start_x_def seq_at_def match_def
  char_to_bitmap_def at_end_def back_trace_def trace_back.simps copy_rest.simps push_def
  memmove_def NUL_def gap_def v_store_def Let_def max3_def

lemma c_string_Suc:
  "c_string m (Suc n) = (if m 0 = NUL then [] else m 0 # c_string (\<lambda>i. m (i + 1)) n)"
proof -
  have "[0 ..< Suc n] = 0 # map Suc [0 ..< n]"
    by (simp add: upt_conv_Cons map_Suc_upt del: upt_Suc)
  then show ?thesis
    by (simp add: c_string_def comp_def add.commute del: upt_Suc)
qed

lemma c_string_0: "c_string m 0 = []"
  by (simp add: c_string_def)

lemma c_string_numeral:
  "c_string m (numeral k) =
     (if m 0 = NUL then [] else m 0 # c_string (\<lambda>i. m (i + 1)) (pred_numeral k))"
  by (simp only: numeral_eq_Suc c_string_Suc)

lemma c_string_1:
  "c_string m 1 = (if m 0 = NUL then [] else [m 0])"
  by (simp only: One_nat_def c_string_Suc c_string_0)

subsection \<open>The returned distance\<close>

lemma back_trace_ret:
  "back_trace v seq_a seq_b buf_a buf_b d k x y = Inr r \<Longrightarrow> ret r = d"
  by (auto simp: back_trace_def Let_def split: sum.splits prod.splits)

text \<open>
  Whatever the input, a distance the aligner returns is below \<open>maxd\<close>, and below the sum
  of the two lengths.
\<close>

lemma d_paths_ret:
  "d_paths seq_a mode seq_b maxd buf_a buf_b v d = Inr r \<Longrightarrow>
   ret r = UINT_MAX \<or> ret r < maxd"
proof (induction seq_a mode seq_b maxd buf_a buf_b v d rule: d_paths.induct)
  case (1 seq_a mode seq_b maxd buf_a buf_b v d)
  show ?case
  proof (cases "d < maxd")
    case False
    with "1.prems" show ?thesis
      by (subst (asm) d_paths.simps) auto
  next
    case True
    note lt = this
    show ?thesis
    proof (cases "diagonals seq_a mode seq_b v d (max (- int d) (- int (length seq_a)))")
      case (Inl e)
      with lt "1.prems" show ?thesis
        by (subst (asm) d_paths.simps) simp
    next
      case (Inr sc)
      show ?thesis
      proof (cases sc)
        case (Next_d v')
        with Inr lt "1.prems"
        have "d_paths seq_a mode seq_b maxd buf_a buf_b v' (d + 1) = Inr r"
          by (subst (asm) d_paths.simps) simp
        with "1.IH" [OF lt Inr Next_d] show ?thesis .
      next
        case (Hit v' k x y)
        with Inr lt "1.prems"
        have "back_trace v' seq_a seq_b buf_a buf_b d k x y = Inr r"
          by (subst (asm) d_paths.simps) simp
        then have "ret r = d" by (rule back_trace_ret)
        with lt show ?thesis by simp
      qed
    qed
  qed
qed

lemma myers_diff_below_maxd:
  "myers_diff stack seq_a mode seq_b maxd buf_a buf_b = Inr r \<Longrightarrow>
   ret r = UINT_MAX \<or> (ret r < maxd \<and> ret r < length seq_a + length seq_b)"
  unfolding myers_diff_def
  by (drule d_paths_ret) (auto split: if_splits)

subsection \<open>The rows a successful call leaves behind\<close>

lemma pos_push: "pos (push c out) = pos out - 1"
  by (simp add: push_def)

lemma content_push:
  "pos out \<le> hi \<Longrightarrow> content (push c out) hi = c # content out hi"
proof -
  assume le: "pos out \<le> hi"
  then have "[pos out - 1 .. hi - 1] = (pos out - 1) # [pos out .. hi - 1]"
    by (simp add: upto_rec1)
  moreover have "map ((mem out)(pos out - 1 := c)) [pos out .. hi - 1] =
                 map (mem out) [pos out .. hi - 1]"
    by (rule map_cong) auto
  ultimately show ?thesis
    by (simp add: content_def push_def)
qed

lemma snake_diagonal:
  "snake seq_a seq_b x0 y0 = Inr (x, y) \<Longrightarrow> x - y = x0 - y0"
proof (induction seq_a seq_b x0 y0 rule: snake.induct)
  case (1 seq_a seq_b x0 y0)
  show ?case
  proof (cases "x0 < int (length seq_b) \<and> y0 < int (length seq_a)")
    case False
    with "1.prems" show ?thesis
      by (subst (asm) snake.simps) auto
  next
    case True
    note inside = this
    show ?thesis
    proof (cases "seq_at seq_b x0")
      case None
      with inside "1.prems" show ?thesis
        by (subst (asm) snake.simps) simp
    next
      case (Some cb)
      note sb = this
      show ?thesis
      proof (cases "seq_at seq_a y0")
        case None
        with inside sb "1.prems" show ?thesis
          by (subst (asm) snake.simps) simp
      next
        case (Some ca)
        show ?thesis
        proof (cases "match cb ca")
          case False
          with inside sb Some "1.prems" show ?thesis
            by (subst (asm) snake.simps) simp
        next
          case True
          with inside sb Some "1.prems"
          have "snake seq_a seq_b (x0 + 1) (y0 + 1) = Inr (x, y)"
            by (subst (asm) snake.simps) simp
          with "1.IH" [OF inside _ sb Some True] show ?thesis
            by simp
        qed
      qed
    qed
  qed
qed

lemma diagonals_hit:
  "diagonals seq_a mode seq_b v d k0 = Inr (Hit v' k x y) \<Longrightarrow>
   k0 \<le> k \<and> k \<le> int d \<and> at_end mode seq_a seq_b x y \<and> y = x - k"
proof (induction seq_a mode seq_b v d k0 rule: diagonals.induct)
  case (1 seq_a mode seq_b v d k0)
  show ?case
  proof (cases "k0 \<le> min (int d) (int (length seq_b))")
    case False
    with "1.prems" show ?thesis
      by (subst (asm) diagonals.simps) (simp split: if_splits)
  next
    case True
    note inrange = this
    show ?thesis
    proof (cases "snake seq_a seq_b (start_x v d k0) (start_x v d k0 - k0)")
      case (Inl e)
      with inrange "1.prems" show ?thesis
        by (subst (asm) diagonals.simps) simp
    next
      case (Inr xy)
      obtain x1 y1 where xy: "xy = (x1, y1)" by (cases xy)
      from Inr xy have diag: "x1 - y1 = k0"
        using snake_diagonal [of seq_a seq_b "start_x v d k0" "start_x v d k0 - k0" x1 y1]
        by simp
      show ?thesis
      proof (cases "at_end mode seq_a seq_b x1 y1")
        case True
        with Inr xy inrange "1.prems" diag show ?thesis
          by (subst (asm) diagonals.simps) auto
      next
        case False
        with Inr xy inrange "1.prems"
        have "diagonals seq_a mode seq_b (v_store v k0 d x1) d (k0 + 1) = Inr (Hit v' k x y)"
          by (subst (asm) diagonals.simps) simp
        from "1.IH" [OF inrange Inr xy [symmetric] False this] show ?thesis
          by auto
      qed
    qed
  qed
qed


lemma seq_at_inside:
  "seq_at s (i - 1) = Some c \<Longrightarrow> i \<le> int (length s) \<Longrightarrow>
   0 < i \<and> c \<in> set s \<and> drop (nat (i - 1)) s = c # drop (nat i) s"
proof -
  assume a: "seq_at s (i - 1) = Some c" and le: "i \<le> int (length s)"
  then have pos: "0 < i" and c: "c = s ! nat (i - 1)"
    by (auto simp: seq_at_def split: if_splits)
  from pos le have inside: "nat (i - 1) < length s" by simp
  then have "drop (nat (i - 1)) s = s ! nat (i - 1) # drop (Suc (nat (i - 1))) s"
    by (simp add: Cons_nth_drop_Suc)
  moreover from pos have "Suc (nat (i - 1)) = nat i" by simp
  moreover from inside c have "c \<in> set s" by simp
  ultimately show ?thesis using pos c by simp
qed

lemma rows_from_refl:
  "0 \<le> x \<Longrightarrow> x = y \<Longrightarrow> rows_from seq_a seq_b top_a top_b x y out_a out_b x out_a out_b"
  unfolding rows_from_def
  by (rule exI [of _ "[]"], rule exI [of _ "[]"]) (simp add: strip_gaps_def)

lemma rows_from_step:
  assumes r: "rows_from seq_a seq_b top_a top_b x1 y1 (push ca out_a) (push cb out_b)
                x' out_a' out_b'"
    and pa: "pos out_a \<le> top_a" and pb: "pos out_b \<le> top_b"
    and a: "(ca = gap \<and> y1 = y) \<or>
            (seq_at seq_a (y - 1) = Some ca \<and> y1 = y - 1 \<and> y \<le> int (length seq_a))"
    and b: "(cb = gap \<and> x1 = x) \<or>
            (seq_at seq_b (x - 1) = Some cb \<and> x1 = x - 1 \<and> x \<le> int (length seq_b))"
  shows "rows_from seq_a seq_b top_a top_b x y out_a out_b x' out_a' out_b'"
proof -
  from r obtain row_a row_b where
    ca: "content out_a' top_a = row_a @ content (push ca out_a) top_a" and
    cb: "content out_b' top_b = row_b @ content (push cb out_b) top_b" and
    qa: "pos out_a' = pos (push ca out_a) - int (length row_a)" and
    qb: "pos out_b' = pos (push cb out_b) - int (length row_b)" and
    len: "length row_a = length row_b" and
    x0: "0 \<le> x'" and xx: "x' \<le> x1" and xy: "x' \<le> y1" and
    sa: "set row_a \<subseteq> insert gap (set seq_a)" and
    sb: "set row_b \<subseteq> insert gap (set seq_b)" and
    da: "gap \<notin> set seq_a \<longrightarrow> drop (nat x') seq_a = strip_gaps row_a @ drop (nat y1) seq_a" and
    db: "gap \<notin> set seq_b \<longrightarrow> drop (nat x') seq_b = strip_gaps row_b @ drop (nat x1) seq_b"
    unfolding rows_from_def by blast
  have ina: "ca \<in> insert gap (set seq_a)"
    using a seq_at_inside [of seq_a y ca] by auto
  have inb: "cb \<in> insert gap (set seq_b)"
    using b seq_at_inside [of seq_b x cb] by auto
  have da': "gap \<notin> set seq_a \<longrightarrow>
      drop (nat x') seq_a = strip_gaps (row_a @ [ca]) @ drop (nat y) seq_a"
    using a da ina seq_at_inside [of seq_a y ca]
    by (auto simp: strip_gaps_def)
  have db': "gap \<notin> set seq_b \<longrightarrow>
      drop (nat x') seq_b = strip_gaps (row_b @ [cb]) @ drop (nat x) seq_b"
    using b db inb seq_at_inside [of seq_b x cb]
    by (auto simp: strip_gaps_def)
  have "content out_a' top_a = (row_a @ [ca]) @ content out_a top_a"
    using ca pa by (simp add: content_push)
  moreover have "content out_b' top_b = (row_b @ [cb]) @ content out_b top_b"
    using cb pb by (simp add: content_push)
  moreover have "pos out_a' = pos out_a - int (length (row_a @ [ca]))"
    using qa by (simp add: pos_push)
  moreover have "pos out_b' = pos out_b - int (length (row_b @ [cb]))"
    using qb by (simp add: pos_push)
  moreover have "length (row_a @ [ca]) = length (row_b @ [cb])"
    using len by simp
  moreover have "x' \<le> x" "x' \<le> y"
    using xx xy a b by auto
  moreover have "set (row_a @ [ca]) \<subseteq> insert gap (set seq_a)"
    using sa ina by auto
  moreover have "set (row_b @ [cb]) \<subseteq> insert gap (set seq_b)"
    using sb inb by auto
  ultimately show ?thesis
    unfolding rows_from_def using x0 da' db' by blast
qed


lemma seq_at_SomeD: "seq_at s i = Some c \<Longrightarrow> 0 \<le> i"
  by (auto simp: seq_at_def split: if_splits)

text \<open>
  The traceback loop, from a cell on diagonal \<open>k\<close> with \<open>\<bar>k\<bar> \<le> dd\<close> that lies inside
  both sequences: when it ends without a fault it has put one column per step in front
  of both cursors, and the columns spell the two sequences between where it stopped and
  where it started.
\<close>

lemma trace_back_rows:
  "trace_back v seq_a seq_b k dd x y out_a out_b = Inr (x', out_a', out_b') \<Longrightarrow>
   y = x - k \<Longrightarrow> \<bar>k\<bar> \<le> int dd \<Longrightarrow> 0 \<le> x \<Longrightarrow> 0 \<le> y \<Longrightarrow>
   x \<le> int (length seq_b) \<Longrightarrow> y \<le> int (length seq_a) \<Longrightarrow>
   pos out_a \<le> top_a \<Longrightarrow> pos out_b \<le> top_b \<Longrightarrow>
   rows_from seq_a seq_b top_a top_b x y out_a out_b x' out_a' out_b'"
proof (induction v seq_a seq_b k dd x y out_a out_b rule: trace_back.induct)
  case (1 v seq_a seq_b k dd x y out_a out_b)
  note inv = "1.prems"(2-)
  note run = "1.prems"(1) [unfolded trace_back.simps [of v seq_a seq_b k dd x y out_a out_b]]
  show ?case
  proof (cases "dd = 0")
    case True
    with run have eq: "x' = x" "out_a' = out_a" "out_b' = out_b"
      by simp_all
    from True inv(2) have "k = 0" by simp
    with inv(1) have xy: "x = y" by simp
    show ?thesis
      unfolding eq using inv(3) xy by (rule rows_from_refl)
  next
    case False
    note nz = this
    then have dd1: "int (dd - 1) = int dd - 1" by simp
    show ?thesis
    proof (cases "k \<noteq> - int dd \<and> k \<noteq> int dd \<and> x = v k (dd - 1) + 1")
      case True
      note c1 = this
      from run nz c1 obtain cb ca where
        sb: "seq_at seq_b (x - 1) = Some cb" and sa: "seq_at seq_a (y - 1) = Some ca" and
        rec: "trace_back v seq_a seq_b k (dd - 1) (x - 1) (y - 1) (push ca out_a) (push cb out_b)
               = Inr (x', out_a', out_b')"
        by (auto split: option.splits)
      have kb: "\<bar>k\<bar> \<le> int (dd - 1)"
        using inv(2) c1 dd1 by arith
      have r: "rows_from seq_a seq_b top_a top_b (x - 1) (y - 1) (push ca out_a) (push cb out_b)
              x' out_a' out_b'"
        by (rule "1.IH"(1) [OF nz c1 refl sb sa rec])
           (use inv(1,3-) kb seq_at_SomeD [OF sb] seq_at_SomeD [OF sa] in \<open>simp_all add: pos_push\<close>)
      show ?thesis
        by (rule rows_from_step [OF r]) (use inv sa sb in simp_all)
    next
      case False
      note n1 = this
      show ?thesis
      proof (cases "k > - int dd + 1 \<and> x = v (k - 1) (dd - 1) + 1")
        case True
        note c2 = this
        from run nz n1 c2 obtain cb where
          sb: "seq_at seq_b (x - 1) = Some cb" and
          rec: "trace_back v seq_a seq_b (k - 1) (dd - 1) (x - 1) y (push gap out_a)
                  (push cb out_b) = Inr (x', out_a', out_b')"
          by (auto split: option.splits)
        have kb: "\<bar>k - 1\<bar> \<le> int (dd - 1)"
          using inv(2) c2 dd1 by arith
        have r: "rows_from seq_a seq_b top_a top_b (x - 1) y (push gap out_a) (push cb out_b)
                x' out_a' out_b'"
          by (rule "1.IH"(2) [OF nz n1 c2 sb rec])
             (use inv(1,3-) kb seq_at_SomeD [OF sb] in \<open>simp_all add: pos_push\<close>)
        show ?thesis
          by (rule rows_from_step [OF r]) (use inv sb in simp_all)
      next
        case False
        note n2 = this
        show ?thesis
        proof (cases "k < int dd - 1 \<and> x = v (k + 1) (dd - 1)")
          case True
          note c3 = this
          from run nz n1 n2 c3 obtain ca where
            sa: "seq_at seq_a (y - 1) = Some ca" and
            rec: "trace_back v seq_a seq_b (k + 1) (dd - 1) x (y - 1) (push ca out_a)
                    (push gap out_b) = Inr (x', out_a', out_b')"
            by (auto split: option.splits)
          have kb: "\<bar>k + 1\<bar> \<le> int (dd - 1)"
            using inv(2) c3 dd1 by arith
          have r: "rows_from seq_a seq_b top_a top_b x (y - 1) (push ca out_a) (push gap out_b)
                  x' out_a' out_b'"
            by (rule "1.IH"(3) [OF nz n1 n2 c3 sa rec])
               (use inv(1,3-) kb seq_at_SomeD [OF sa] in \<open>simp_all add: pos_push\<close>)
          show ?thesis
            by (rule rows_from_step [OF r]) (use inv sa in simp_all)
        next
          case False
          note n3 = this
          from run nz n1 n2 n3 obtain cb ca where
            sb: "seq_at seq_b (x - 1) = Some cb" and sa: "seq_at seq_a (y - 1) = Some ca" and
            rec: "trace_back v seq_a seq_b k dd (x - 1) (y - 1) (push ca out_a) (push cb out_b)
                   = Inr (x', out_a', out_b')"
            by (auto split: option.splits)
          have r: "rows_from seq_a seq_b top_a top_b (x - 1) (y - 1) (push ca out_a)
                  (push cb out_b) x' out_a' out_b'"
            by (rule "1.IH"(4) [OF nz n1 n2 n3 refl sb sa rec])
               (use inv seq_at_SomeD [OF sb] seq_at_SomeD [OF sa] in \<open>simp_all add: pos_push\<close>)
          show ?thesis
            by (rule rows_from_step [OF r]) (use inv sa sb in simp_all)
        qed
      qed
    qed
  qed
qed


lemma copy_rest_rows:
  "copy_rest seq_a seq_b x out_a out_b = Inr (out_a', out_b') \<Longrightarrow>
   0 \<le> x \<Longrightarrow> x \<le> int (length seq_b) \<Longrightarrow> x \<le> int (length seq_a) \<Longrightarrow>
   pos out_a \<le> top_a \<Longrightarrow> pos out_b \<le> top_b \<Longrightarrow>
   rows_from seq_a seq_b top_a top_b x x out_a out_b 0 out_a' out_b'"
proof (induction seq_a seq_b x out_a out_b rule: copy_rest.induct)
  case (1 seq_a seq_b x out_a out_b)
  note inv = "1.prems"(2-)
  note run = "1.prems"(1) [unfolded copy_rest.simps [of seq_a seq_b x out_a out_b]]
  show ?case
  proof (cases "x > 0")
    case False
    with inv(1) have x0: "x = 0" by simp
    with run have eq: "out_a' = out_a" "out_b' = out_b"
      by simp_all
    show ?thesis
      unfolding eq x0 by (rule rows_from_refl) simp_all
  next
    case True
    from run True obtain cb ca where
      sb: "seq_at seq_b (x - 1) = Some cb" and sa: "seq_at seq_a (x - 1) = Some ca" and
      rec: "copy_rest seq_a seq_b (x - 1) (push ca out_a) (push cb out_b) = Inr (out_a', out_b')"
      by (auto split: option.splits)
    have r: "rows_from seq_a seq_b top_a top_b (x - 1) (x - 1) (push ca out_a) (push cb out_b)
               0 out_a' out_b'"
      by (rule "1.IH" [OF True refl sb sa rec])
         (use inv True in \<open>simp_all add: pos_push\<close>)
    show ?thesis
      by (rule rows_from_step [OF r]) (use inv sa sb in simp_all)
  qed
qed

lemma rows_from_trans:
  assumes r1: "rows_from seq_a seq_b top_a top_b x y out_a out_b x1 out_a1 out_b1"
    and r2: "rows_from seq_a seq_b top_a top_b x1 x1 out_a1 out_b1 x2 out_a2 out_b2"
  shows "rows_from seq_a seq_b top_a top_b x y out_a out_b x2 out_a2 out_b2"
proof -
  from r1 obtain ra1 rb1 where
    ca1: "content out_a1 top_a = ra1 @ content out_a top_a" and
    cb1: "content out_b1 top_b = rb1 @ content out_b top_b" and
    qa1: "pos out_a1 = pos out_a - int (length ra1)" and
    qb1: "pos out_b1 = pos out_b - int (length rb1)" and
    len1: "length ra1 = length rb1" and
    b1: "0 \<le> x1" "x1 \<le> x" "x1 \<le> y" and
    sa1: "set ra1 \<subseteq> insert gap (set seq_a)" and
    sb1: "set rb1 \<subseteq> insert gap (set seq_b)" and
    da1: "gap \<notin> set seq_a \<longrightarrow> drop (nat x1) seq_a = strip_gaps ra1 @ drop (nat y) seq_a" and
    db1: "gap \<notin> set seq_b \<longrightarrow> drop (nat x1) seq_b = strip_gaps rb1 @ drop (nat x) seq_b"
    unfolding rows_from_def by blast
  from r2 obtain ra2 rb2 where
    ca2: "content out_a2 top_a = ra2 @ content out_a1 top_a" and
    cb2: "content out_b2 top_b = rb2 @ content out_b1 top_b" and
    qa2: "pos out_a2 = pos out_a1 - int (length ra2)" and
    qb2: "pos out_b2 = pos out_b1 - int (length rb2)" and
    len2: "length ra2 = length rb2" and
    b2: "0 \<le> x2" "x2 \<le> x1" and
    sa2: "set ra2 \<subseteq> insert gap (set seq_a)" and
    sb2: "set rb2 \<subseteq> insert gap (set seq_b)" and
    da2: "gap \<notin> set seq_a \<longrightarrow> drop (nat x2) seq_a = strip_gaps ra2 @ drop (nat x1) seq_a" and
    db2: "gap \<notin> set seq_b \<longrightarrow> drop (nat x2) seq_b = strip_gaps rb2 @ drop (nat x1) seq_b"
    unfolding rows_from_def by blast
  have "content out_a2 top_a = (ra2 @ ra1) @ content out_a top_a"
    using ca1 ca2 by simp
  moreover have "content out_b2 top_b = (rb2 @ rb1) @ content out_b top_b"
    using cb1 cb2 by simp
  moreover have "pos out_a2 = pos out_a - int (length (ra2 @ ra1))"
    using qa1 qa2 by simp
  moreover have "pos out_b2 = pos out_b - int (length (rb2 @ rb1))"
    using qb1 qb2 by simp
  moreover have "length (ra2 @ ra1) = length (rb2 @ rb1)"
    using len1 len2 by simp
  moreover have "0 \<le> x2" "x2 \<le> x" "x2 \<le> y"
    using b1 b2 by simp_all
  moreover have "set (ra2 @ ra1) \<subseteq> insert gap (set seq_a)"
    using sa1 sa2 by simp
  moreover have "set (rb2 @ rb1) \<subseteq> insert gap (set seq_b)"
    using sb1 sb2 by simp
  moreover have "gap \<notin> set seq_a \<longrightarrow>
      drop (nat x2) seq_a = strip_gaps (ra2 @ ra1) @ drop (nat y) seq_a"
    using da1 da2 by (simp add: strip_gaps_def)
  moreover have "gap \<notin> set seq_b \<longrightarrow>
      drop (nat x2) seq_b = strip_gaps (rb2 @ rb1) @ drop (nat x) seq_b"
    using db1 db2 by (simp add: strip_gaps_def)
  ultimately show ?thesis
    unfolding rows_from_def by blast
qed


lemma memmove_content:
  "pos out \<le> hi \<Longrightarrow>
   map (\<lambda>i. mem (memmove out (hi - pos out)) (int i)) [0 ..< nat (hi - pos out)] =
   content out hi"
  by (rule nth_equalityI) (auto simp: content_def memmove_def)

lemma takeWhile_upto_NUL:
  "NUL \<notin> set row \<Longrightarrow> takeWhile (\<lambda>c. c \<noteq> NUL) (row @ NUL # rest) = row"
  by (induction row) auto

lemma c_string_row:
  assumes m: "map (\<lambda>i. m (int i)) [0 ..< Suc (length row)] = row @ [NUL]"
    and nn: "NUL \<notin> set row" and cap: "length row < cap"
  shows "c_string m cap = row"
proof -
  from cap have "[0 ..< cap] = [0 ..< Suc (length row)] @ [Suc (length row) ..< cap]"
    by (metis Suc_leI le0 upt_add_eq_append le_add_diff_inverse)
  then have "map (\<lambda>i. m (int i)) [0 ..< cap] =
      row @ NUL # map (\<lambda>i. m (int i)) [Suc (length row) ..< cap]"
    using m by (simp del: upt_Suc)
  then show ?thesis
    using nn by (simp add: c_string_def takeWhile_upto_NUL del: upt_Suc)
qed


lemma back_trace_rows:
  assumes run: "back_trace v seq_a seq_b buf_a buf_b d k x y = Inr r"
    and diag: "y = x - k" and kd: "\<bar>k\<bar> \<le> int d"
    and xe: "x = int (length seq_b)" and ye: "y = int (length seq_a)"
  shows "\<exists>row_a row_b.
     length row_a = length row_b \<and>
     map (\<lambda>i. bt_a r (int i)) [0 ..< length row_a + 2] = row_a @ [NUL, NUL] \<and>
     map (\<lambda>i. bt_b r (int i)) [0 ..< length row_b] = row_b \<and>
     set row_a \<subseteq> insert gap (set seq_a) \<and> set row_b \<subseteq> insert gap (set seq_b) \<and>
     (gap \<notin> set seq_a \<longrightarrow> strip_gaps row_a = seq_a) \<and>
     (gap \<notin> set seq_b \<longrightarrow> strip_gaps row_b = seq_b)"
proof -
  define top_a where "top_a = int (length seq_a) + int d + 1"
  define top_b where "top_b = int (length seq_b) + int d + 1"
  define a0 where "a0 = \<lparr>mem = buf_a, pos = top_a, written = []\<rparr>"
  define b0 where "b0 = \<lparr>mem = buf_b, pos = top_b, written = []\<rparr>"
  define a2 where "a2 = push NUL (push NUL a0)"
  have pa2: "pos a2 = top_a - 2" and ca2: "content a2 top_a = [NUL, NUL]"
    by (simp_all add: a2_def a0_def pos_push content_push) (simp add: content_def)
  have pb0: "pos b0 = top_b" and cb0: "content b0 top_b = []"
    by (simp_all add: b0_def content_def)
  from run obtain x1 a3 b3 a4 b4 where
    tb: "trace_back v seq_a seq_b k d x y a2 b0 = Inr (x1, a3, b3)" and
    cr: "copy_rest seq_a seq_b x1 a3 b3 = Inr (a4, b4)" and
    r: "r = \<lparr>ret = d,
             bt_a = mem (memmove a4 (top_a - pos a4)),
             bt_b = mem (memmove b4 (top_b - pos b4)),
             written_a = written (memmove a4 (top_a - pos a4)),
             written_b = written (memmove b4 (top_b - pos b4))\<rparr>"
    unfolding back_trace_def Let_def a2_def a0_def b0_def top_a_def top_b_def
    by (auto split: sum.splits prod.splits)
  have r1: "rows_from seq_a seq_b top_a top_b x y a2 b0 x1 a3 b3"
    by (rule trace_back_rows [OF tb diag kd]) (use xe ye pa2 pb0 in simp_all)
  then have x1: "0 \<le> x1" "x1 \<le> x" "x1 \<le> y" and
    p3: "pos a3 \<le> top_a" "pos b3 \<le> top_b"
    unfolding rows_from_def using pa2 pb0 by auto
  have r2: "rows_from seq_a seq_b top_a top_b x1 x1 a3 b3 0 a4 b4"
    by (rule copy_rest_rows [OF cr]) (use x1 xe ye p3 in simp_all)
  from rows_from_trans [OF r1 r2] obtain row_a row_b where
    ca: "content a4 top_a = row_a @ content a2 top_a" and
    cb: "content b4 top_b = row_b @ content b0 top_b" and
    qa: "pos a4 = pos a2 - int (length row_a)" and
    qb: "pos b4 = pos b0 - int (length row_b)" and
    len: "length row_a = length row_b" and
    sa: "set row_a \<subseteq> insert gap (set seq_a)" and
    sb: "set row_b \<subseteq> insert gap (set seq_b)" and
    da: "gap \<notin> set seq_a \<longrightarrow> drop (nat 0) seq_a = strip_gaps row_a @ drop (nat y) seq_a" and
    db: "gap \<notin> set seq_b \<longrightarrow> drop (nat 0) seq_b = strip_gaps row_b @ drop (nat x) seq_b"
    unfolding rows_from_def by blast
  have na: "nat (top_a - pos a4) = length row_a + 2" and le_a: "pos a4 \<le> top_a"
    using qa pa2 by simp_all
  have nb: "nat (top_b - pos b4) = length row_b" and le_b: "pos b4 \<le> top_b"
    using qb pb0 by simp_all
  have "map (\<lambda>i. bt_a r (int i)) [0 ..< length row_a + 2] = row_a @ [NUL, NUL]"
    using memmove_content [OF le_a] ca ca2 by (simp add: r na)
  moreover have "map (\<lambda>i. bt_b r (int i)) [0 ..< length row_b] = row_b"
    using memmove_content [OF le_b] cb cb0 by (simp add: r nb)
  moreover have "gap \<notin> set seq_a \<longrightarrow> strip_gaps row_a = seq_a"
    using da ye by simp
  moreover have "gap \<notin> set seq_b \<longrightarrow> strip_gaps row_b = seq_b"
    using db xe by simp
  ultimately show ?thesis
    using len sa sb by blast
qed


lemma d_paths_success:
  "d_paths seq_a mode seq_b maxd buf_a buf_b v d = Inr r \<Longrightarrow> ret r \<noteq> UINT_MAX \<Longrightarrow>
   \<exists>v' d' k x y. back_trace v' seq_a seq_b buf_a buf_b d' k x y = Inr r \<and>
     at_end mode seq_a seq_b x y \<and> y = x - k \<and> \<bar>k\<bar> \<le> int d'"
proof (induction seq_a mode seq_b maxd buf_a buf_b v d rule: d_paths.induct)
  case (1 seq_a mode seq_b maxd buf_a buf_b v d)
  note run = "1.prems"(1) [unfolded d_paths.simps [of seq_a mode seq_b maxd buf_a buf_b v d]]
  show ?case
  proof (cases "d < maxd")
    case False
    with run "1.prems"(2) show ?thesis by auto
  next
    case True
    note lt = this
    show ?thesis
    proof (cases "diagonals seq_a mode seq_b v d (max (- int d) (- int (length seq_a)))")
      case (Inl e)
      with lt run show ?thesis by simp
    next
      case (Inr sc)
      show ?thesis
      proof (cases sc)
        case (Next_d v')
        with Inr lt run
        have "d_paths seq_a mode seq_b maxd buf_a buf_b v' (d + 1) = Inr r"
          by simp
        from "1.IH" [OF lt Inr Next_d this "1.prems"(2)] show ?thesis .
      next
        case (Hit v' k x y)
        with Inr lt run
        have bt: "back_trace v' seq_a seq_b buf_a buf_b d k x y = Inr r"
          by simp
        from Inr Hit have "diagonals seq_a mode seq_b v d
            (max (- int d) (- int (length seq_a))) = Inr (Hit v' k x y)"
          by simp
        from diagonals_hit [OF this]
        have "max (- int d) (- int (length seq_a)) \<le> k" "k \<le> int d"
          "at_end mode seq_a seq_b x y" "y = x - k"
          by auto
        then have "at_end mode seq_a seq_b x y \<and> y = x - k \<and> \<bar>k\<bar> \<le> int d"
          by auto
        with bt show ?thesis by blast
      qed
    qed
  qed
qed

text \<open>
  Every successful global alignment, whatever the stack and the buffers held: the first
  buffer starts with a row followed by two terminators, the second with a row of the same
  length (and nothing is said of what follows it); the rows hold gaps and symbols of
  their sequence only, and stripped of gaps they are the sequences.
\<close>

lemma myers_diff_rows:
  assumes run: "myers_diff stack seq_a myers_align_globally seq_b maxd buf_a buf_b = Inr r"
    and ok: "ret r \<noteq> UINT_MAX"
  shows "\<exists>row_a row_b.
     length row_a = length row_b \<and>
     map (\<lambda>i. bt_a r (int i)) [0 ..< length row_a + 2] = row_a @ [NUL, NUL] \<and>
     map (\<lambda>i. bt_b r (int i)) [0 ..< length row_b] = row_b \<and>
     set row_a \<subseteq> insert gap (set seq_a) \<and> set row_b \<subseteq> insert gap (set seq_b) \<and>
     (gap \<notin> set seq_a \<longrightarrow> strip_gaps row_a = seq_a) \<and>
     (gap \<notin> set seq_b \<longrightarrow> strip_gaps row_b = seq_b)"
proof -
  from run ok obtain v' d' k x y where
    bt: "back_trace v' seq_a seq_b buf_a buf_b d' k x y = Inr r" and
    e: "at_end myers_align_globally seq_a seq_b x y" and
    diag: "y = x - k" and kd: "\<bar>k\<bar> \<le> int d'"
    unfolding myers_diff_def by (blast dest: d_paths_success)
  from e have "x = int (length seq_b)" "y = int (length seq_a)"
    by (simp_all add: at_end_def)
  with bt diag kd show ?thesis
    by (rule back_trace_rows)
qed

text \<open>
  So the first row read back as a string, from a buffer that is large enough, strips to
  the first sequence.
\<close>

lemma myers_diff_first_row:
  assumes run: "myers_diff stack seq_a myers_align_globally seq_b maxd buf_a buf_b = Inr r"
    and ok: "ret r \<noteq> UINT_MAX"
    and clean: "NUL \<notin> set seq_a" "gap \<notin> set seq_a"
  shows "\<exists>n. \<forall>cap > n. strip_gaps (c_string (bt_a r) cap) = seq_a"
proof -
  from myers_diff_rows [OF run ok] obtain row_a where
    m: "map (\<lambda>i. bt_a r (int i)) [0 ..< length row_a + 2] = row_a @ [NUL, NUL]" and
    s: "set row_a \<subseteq> insert gap (set seq_a)" and
    st: "strip_gaps row_a = seq_a"
    using clean by blast
  have "[0 ..< length row_a + 2] = [0 ..< Suc (length row_a)] @ [Suc (length row_a)]"
    by simp
  with m have m': "map (\<lambda>i. bt_a r (int i)) [0 ..< Suc (length row_a)] = row_a @ [NUL]"
    by (simp del: upt_Suc)
  have "NUL \<notin> set row_a"
    using s clean by (auto simp: NUL_def gap_def)
  with m' have "\<forall>cap > length row_a. c_string (bt_a r) cap = row_a"
    by (simp add: c_string_row)
  with st show ?thesis by auto
qed

subsection \<open>The offsets a successful call writes\<close>

lemma pushed_refl: "pushed out out"
  by (simp add: pushed_def)

lemma pushed_step: "pushed (push c out) out' \<Longrightarrow> pushed out out'"
proof -
  assume p: "pushed (push c out) out'"
  then have le: "pos out' \<le> pos out - 1"
    and w: "written out' = [pos out' .. pos out - 1 - 1] @ (pos out - 1) # written out"
    by (simp_all add: pushed_def push_def)
  from le have "[pos out' .. pos out - 1] = [pos out' .. pos out - 1 - 1] @ [pos out - 1]"
    by (simp add: upto_rec2)
  with le w show ?thesis
    by (simp add: pushed_def)
qed

text \<open>
  The traceback loop writes downwards from where the cursors stand, one byte into each
  buffer per step, and no more steps than the symbols of a sequence it walks over plus
  the \<open>dd\<close> it uses up.
\<close>

lemma trace_back_writes:
  "trace_back v seq_a seq_b k dd x y out_a out_b = Inr (x', out_a', out_b') \<Longrightarrow>
   y = x - k \<Longrightarrow> \<bar>k\<bar> \<le> int dd \<Longrightarrow>
   pushed out_a out_a' \<and> pushed out_b out_b' \<and>
   pos out_a - pos out_a' = pos out_b - pos out_b' \<and>
   pos out_a - pos out_a' \<le> y - x' + int dd \<and>
   pos out_b - pos out_b' \<le> x - x' + int dd"
proof (induction v seq_a seq_b k dd x y out_a out_b rule: trace_back.induct)
  case (1 v seq_a seq_b k dd x y out_a out_b)
  note inv = "1.prems"(2-)
  note run = "1.prems"(1) [unfolded trace_back.simps [of v seq_a seq_b k dd x y out_a out_b]]
  show ?case
  proof (cases "dd = 0")
    case True
    with run have eq: "x' = x" "out_a' = out_a" "out_b' = out_b"
      by simp_all
    from True inv(2) have "k = 0" by simp
    with inv(1) have xy: "y - x = 0" by simp
    show ?thesis
      unfolding eq using xy by (simp add: pushed_refl)
  next
    case False
    note nz = this
    then have dd1: "int (dd - 1) = int dd - 1" by simp
    show ?thesis
    proof (cases "k \<noteq> - int dd \<and> k \<noteq> int dd \<and> x = v k (dd - 1) + 1")
      case True
      note c1 = this
      from run nz c1 obtain cb ca where
        sb: "seq_at seq_b (x - 1) = Some cb" and sa: "seq_at seq_a (y - 1) = Some ca" and
        rec: "trace_back v seq_a seq_b k (dd - 1) (x - 1) (y - 1) (push ca out_a) (push cb out_b)
               = Inr (x', out_a', out_b')"
        by (auto split: option.splits)
      have kb: "\<bar>k\<bar> \<le> int (dd - 1)"
        using inv(2) c1 dd1 by arith
      have "y - 1 = x - 1 - k" using inv(1) by simp
      from "1.IH"(1) [OF nz c1 refl sb sa rec this kb] show ?thesis
        using dd1 by (auto simp: pos_push dest: pushed_step)
    next
      case False
      note n1 = this
      show ?thesis
      proof (cases "k > - int dd + 1 \<and> x = v (k - 1) (dd - 1) + 1")
        case True
        note c2 = this
        from run nz n1 c2 obtain cb where
          sb: "seq_at seq_b (x - 1) = Some cb" and
          rec: "trace_back v seq_a seq_b (k - 1) (dd - 1) (x - 1) y (push gap out_a)
                  (push cb out_b) = Inr (x', out_a', out_b')"
          by (auto split: option.splits)
        have kb: "\<bar>k - 1\<bar> \<le> int (dd - 1)"
          using inv(2) c2 dd1 by arith
        have "y = x - 1 - (k - 1)" using inv(1) by simp
        from "1.IH"(2) [OF nz n1 c2 sb rec this kb] show ?thesis
          using dd1 by (auto simp: pos_push dest: pushed_step)
      next
        case False
        note n2 = this
        show ?thesis
        proof (cases "k < int dd - 1 \<and> x = v (k + 1) (dd - 1)")
          case True
          note c3 = this
          from run nz n1 n2 c3 obtain ca where
            sa: "seq_at seq_a (y - 1) = Some ca" and
            rec: "trace_back v seq_a seq_b (k + 1) (dd - 1) x (y - 1) (push ca out_a)
                    (push gap out_b) = Inr (x', out_a', out_b')"
            by (auto split: option.splits)
          have kb: "\<bar>k + 1\<bar> \<le> int (dd - 1)"
            using inv(2) c3 dd1 by arith
          have "y - 1 = x - (k + 1)" using inv(1) by simp
          from "1.IH"(3) [OF nz n1 n2 c3 sa rec this kb] show ?thesis
            using dd1 by (auto simp: pos_push dest: pushed_step)
        next
          case False
          note n3 = this
          from run nz n1 n2 n3 obtain cb ca where
            sb: "seq_at seq_b (x - 1) = Some cb" and sa: "seq_at seq_a (y - 1) = Some ca" and
            rec: "trace_back v seq_a seq_b k dd (x - 1) (y - 1) (push ca out_a) (push cb out_b)
                   = Inr (x', out_a', out_b')"
            by (auto split: option.splits)
          have "y - 1 = x - 1 - k" using inv(1) by simp
          from "1.IH"(4) [OF nz n1 n2 n3 refl sb sa rec this inv(2)] show ?thesis
            by (auto simp: pos_push dest: pushed_step)
        qed
      qed
    qed
  qed
qed

lemma copy_rest_writes:
  "copy_rest seq_a seq_b x out_a out_b = Inr (out_a', out_b') \<Longrightarrow> 0 \<le> x \<Longrightarrow>
   pushed out_a out_a' \<and> pushed out_b out_b' \<and>
   pos out_a - pos out_a' = x \<and> pos out_b - pos out_b' = x"
proof (induction seq_a seq_b x out_a out_b rule: copy_rest.induct)
  case (1 seq_a seq_b x out_a out_b)
  note run = "1.prems"(1) [unfolded copy_rest.simps [of seq_a seq_b x out_a out_b]]
  show ?case
  proof (cases "x > 0")
    case False
    with "1.prems"(2) have x0: "x = 0" by simp
    with run have eq: "out_a' = out_a" "out_b' = out_b"
      by simp_all
    show ?thesis
      unfolding eq x0 by (simp add: pushed_refl)
  next
    case True
    from run True obtain cb ca where
      sb: "seq_at seq_b (x - 1) = Some cb" and sa: "seq_at seq_a (x - 1) = Some ca" and
      rec: "copy_rest seq_a seq_b (x - 1) (push ca out_a) (push cb out_b) = Inr (out_a', out_b')"
      by (auto split: option.splits)
    from True have "0 \<le> x - 1" by simp
    from "1.IH" [OF True refl sb sa rec this] show ?thesis
      by (auto simp: pos_push dest: pushed_step)
  qed
qed


lemma pushed_trans: "pushed out out1 \<Longrightarrow> pushed out1 out2 \<Longrightarrow> pushed out out2"
proof -
  assume p1: "pushed out out1" and p2: "pushed out1 out2"
  then have le: "pos out2 \<le> pos out1" "pos out1 \<le> pos out"
    by (simp_all add: pushed_def)
  have "[pos out2 .. pos out - 1] = [pos out2 .. pos out1 - 1] @ [pos out1 .. pos out - 1]"
  proof (cases "pos out1 = pos out")
    case True
    then show ?thesis by simp
  next
    case False
    with le show ?thesis by (simp add: upto_split1)
  qed
  with p1 p2 le show ?thesis
    by (simp add: pushed_def)
qed

lemma back_trace_writes:
  assumes run: "back_trace v seq_a seq_b buf_a buf_b d k x y = Inr r"
    and diag: "y = x - k" and kd: "\<bar>k\<bar> \<le> int d"
    and xe: "x = int (length seq_b)" and ye: "y = int (length seq_a)"
  shows "\<exists>n. n \<le> length seq_a + d \<and> n \<le> length seq_b + d \<and>
     written_a r = [0 .. int n + 1] @
                   [int (length seq_a) + int d - 1 - int n .. int (length seq_a) + int d] \<and>
     written_b r = [0 .. int n - 1] @
                   [int (length seq_b) + int d + 1 - int n .. int (length seq_b) + int d]"
proof -
  define top_a where "top_a = int (length seq_a) + int d + 1"
  define top_b where "top_b = int (length seq_b) + int d + 1"
  define a0 where "a0 = \<lparr>mem = buf_a, pos = top_a, written = []\<rparr>"
  define b0 where "b0 = \<lparr>mem = buf_b, pos = top_b, written = []\<rparr>"
  define a2 where "a2 = push NUL (push NUL a0)"
  have pa2: "pos a2 = top_a - 2" and wa2: "written a2 = [top_a - 2, top_a - 1]"
    by (simp_all add: a2_def a0_def push_def)
  have pb0: "pos b0 = top_b" and wb0: "written b0 = []"
    by (simp_all add: b0_def)
  from run obtain x1 a3 b3 a4 b4 where
    tb: "trace_back v seq_a seq_b k d x y a2 b0 = Inr (x1, a3, b3)" and
    cr: "copy_rest seq_a seq_b x1 a3 b3 = Inr (a4, b4)" and
    r: "r = \<lparr>ret = d,
             bt_a = mem (memmove a4 (top_a - pos a4)),
             bt_b = mem (memmove b4 (top_b - pos b4)),
             written_a = written (memmove a4 (top_a - pos a4)),
             written_b = written (memmove b4 (top_b - pos b4))\<rparr>"
    unfolding back_trace_def Let_def a2_def a0_def b0_def top_a_def top_b_def
    by (auto split: sum.splits prod.splits)
  have "rows_from seq_a seq_b top_a top_b x y a2 b0 x1 a3 b3"
    by (rule trace_back_rows [OF tb diag kd]) (use xe ye pa2 pb0 in simp_all)
  then have x1: "0 \<le> x1"
    unfolding rows_from_def by auto
  from trace_back_writes [OF tb diag kd] have
    t: "pushed a2 a3" "pushed b0 b3" "pos a2 - pos a3 = pos b0 - pos b3"
       "pos a2 - pos a3 \<le> y - x1 + int d" "pos b0 - pos b3 \<le> x - x1 + int d"
    by simp_all
  from copy_rest_writes [OF cr x1] have
    c: "pushed a3 a4" "pushed b3 b4" "pos a3 - pos a4 = x1" "pos b3 - pos b4 = x1"
    by simp_all
  have pa: "pushed a2 a4" and pb: "pushed b0 b4"
    using t(1,2) c(1,2) by (blast intro: pushed_trans)+
  define n where "n = nat (top_b - pos b4)"
  from pb pb0 have nb: "int n = top_b - pos b4"
    by (simp add: n_def pushed_def)
  from t(3) c(3,4) pa2 pb0 nb have na: "int n = top_a - 2 - pos a4"
    by simp
  from t(4) c(3) pa2 na ye have n1: "n \<le> length seq_a + d"
    by simp
  from t(5) c(4) pb0 nb xe have n2: "n \<le> length seq_b + d"
    by simp
  have "[pos a4 .. top_a - 2 - 1] @ [top_a - 2, top_a - 1] = [pos a4 .. top_a - 1]"
    using na by (simp add: upto_rec2)
  with pa pa2 wa2 have wa4: "written a4 = [pos a4 .. top_a - 1]"
    by (simp add: pushed_def)
  from pb pb0 wb0 have wb4: "written b4 = [pos b4 .. top_b - 1]"
    by (simp add: pushed_def)
  from na have qa: "pos a4 = top_a - 2 - int n" by simp
  from nb have qb: "pos b4 = top_b - int n" by simp
  have "written_a r = [0 .. int n + 1] @ [top_a - 2 - int n .. top_a - 1]"
    using wa4 by (simp add: r memmove_def qa add.commute)
  moreover have "written_b r = [0 .. int n - 1] @ [top_b - int n .. top_b - 1]"
    using wb4 by (simp add: r memmove_def qb add.commute)
  ultimately show ?thesis
    using n1 n2 unfolding top_a_def top_b_def
    by (intro exI [of _ n]) (simp add: algebra_simps)
qed

text \<open>
  The writes of every successful global alignment, latest first, where \<open>n\<close> is the number
  of columns: into the first buffer the copy to the offsets 0 to \<open>n + 1\<close>, after the
  \<open>n\<close> symbols and the two terminators written downwards from offset \<open>len_a + d\<close>; into
  the second the copy to the offsets 0 to \<open>n - 1\<close>, after \<open>n\<close> symbols written downwards
  from offset \<open>len_b + d\<close>. There are at most \<open>len_a + d\<close> and at most \<open>len_b + d\<close>
  columns.
\<close>

lemma myers_diff_writes:
  assumes run: "myers_diff stack seq_a myers_align_globally seq_b maxd buf_a buf_b = Inr r"
    and ok: "ret r \<noteq> UINT_MAX"
  shows "\<exists>n. n \<le> length seq_a + ret r \<and> n \<le> length seq_b + ret r \<and>
     written_a r = [0 .. int n + 1] @
        [int (length seq_a) + int (ret r) - 1 - int n .. int (length seq_a) + int (ret r)] \<and>
     written_b r = [0 .. int n - 1] @
        [int (length seq_b) + int (ret r) + 1 - int n .. int (length seq_b) + int (ret r)]"
proof -
  from run ok obtain v' d' k x y where
    bt: "back_trace v' seq_a seq_b buf_a buf_b d' k x y = Inr r" and
    e: "at_end myers_align_globally seq_a seq_b x y" and
    diag: "y = x - k" and kd: "\<bar>k\<bar> \<le> int d'"
    unfolding myers_diff_def by (blast dest: d_paths_success)
  from e have xy: "x = int (length seq_b)" "y = int (length seq_a)"
    by (simp_all add: at_end_def)
  from bt have "ret r = d'" by (rule back_trace_ret)
  with back_trace_writes [OF bt diag kd xy] show ?thesis
    by simp
qed

text \<open>
  So the writes into the second buffer stay between the offsets 0 and \<open>len_b + d\<close>, and
  those into the first between \<open>-1\<close> and \<open>len_a + d + 1\<close>: the offset \<open>-1\<close> is written
  when the alignment has \<open>len_a + d\<close> columns.
\<close>

lemma myers_diff_write_bounds:
  assumes run: "myers_diff stack seq_a myers_align_globally seq_b maxd buf_a buf_b = Inr r"
    and ok: "ret r \<noteq> UINT_MAX"
  shows "(\<forall>i \<in> set (written_a r). - 1 \<le> i \<and> i \<le> int (length seq_a) + int (ret r) + 1) \<and>
         (\<forall>i \<in> set (written_b r). 0 \<le> i \<and> i \<le> int (length seq_b) + int (ret r))"
proof -
  from myers_diff_writes [OF run ok] obtain n where
    "n \<le> length seq_a + ret r" "n \<le> length seq_b + ret r"
    "written_a r = [0 .. int n + 1] @
        [int (length seq_a) + int (ret r) - 1 - int n .. int (length seq_a) + int (ret r)]"
    "written_b r = [0 .. int n - 1] @
        [int (length seq_b) + int (ret r) + 1 - int n .. int (length seq_b) + int (ret r)]"
    by blast
  then show ?thesis by auto
qed

subsection \<open>Small inputs\<close>

text \<open>
  The table cell \<^verbatim>\<open>v[1][0]\<close> is read at \<open>d = 1\<close>, \<open>k = 0\<close> and was never written: the
  result depends on what the stack held there. With a stack of zeros the sequences CCA
  and GGA, two substitutions apart, get distance 2 and rows that start with the inputs;
  with the value 2 in that one cell they get distance 1.
\<close>

lemma myers_diff_reads_stack:
  "map_sum id ret (myers_diff stack ''A'' myers_align_globally ''C'' 2 buf_a buf_b)
     = Inr (if stack 1 0 \<le> 1 then 1 else UINT_MAX)"
  by (simp add: myers_eval)

lemma myers_diff_zero_stack:
  "map_sum id (\<lambda>r. (ret r, c_string (bt_a r) 5, take 3 (c_string (bt_b r) 5)))
     (myers_diff (\<lambda>k d. 0) ''CCA'' myers_align_globally ''GGA'' 6 buf_a buf_b)
     = Inr (2, ''CCA'', ''GGA'')"
  by (simp add: myers_eval c_string_numeral c_string_1 c_string_0)

lemma myers_diff_under_reports:
  "spec_edit_distance ''CCA'' ''GGA'' = 2 \<and>
   map_sum id ret
     (myers_diff ((\<lambda>k d. 0)(1 := (\<lambda>d. 0)(0 := 2))) ''CCA'' myers_align_globally ''GGA'' 6
        buf_a buf_b)
     = Inr 1"
  by (simp add: myers_eval)

text \<open>
  Claim C1 says that a global alignment returns the least edit distance, and the overflow
  sentinel exactly when that distance exceeds \<open>maxDistance\<close>, so that a distance equal to
  \<open>maxDistance\<close> still succeeds. The loop over \<open>d\<close> stops before \<open>d\<close> reaches \<open>maxd\<close>:
  for the sequences A and C, one substitution apart, and \<open>maxd = 1\<close>, the code returns
  \<^verbatim>\<open>UINT_MAX\<close>, whatever the stack and the buffers held.
\<close>

theorem myers_diff_overflows_at_maxd:
  "spec_edit_distance ''A'' ''C'' = 1 \<and>
   map_sum id ret (myers_diff stack ''A'' myers_align_globally ''C'' 1 buf_a buf_b)
     = Inr UINT_MAX"
  by (simp add: myers_eval)

text \<open>
  Claim C2 says that stripping the gaps from either returned row gives back the input.
  Line 178 writes a second terminator into the first buffer where the terminator of the
  second was due: aligning A with A, the first row reads back as A, but the second buffer
  holds A at offsets 0 and 1 and no terminator the call wrote, so that a caller reading it
  as a string gets at least AA, whatever the buffer's capacity beyond two bytes.
\<close>

theorem myers_diff_second_row_unterminated:
  "map_sum id
     (\<lambda>r. (ret r, strip_gaps (c_string (bt_a r) 3),
            take 2 (strip_gaps (c_string (bt_b r) (Suc (Suc n))))))
     (myers_diff stack ''A'' myers_align_globally ''A'' 1 buf_a buf_b)
     = Inr (0, ''A'', ''AA'')"
  by (simp add: myers_eval c_string_Suc c_string_numeral c_string_1 c_string_0 strip_gaps_def)

text \<open>
  Claim C6 says that every write of the traceback stays inside a buffer of
  \<open>len(A) + len(B) + d + 1\<close> symbols. Aligning A with A (distance 0, capacity 3), the
  writes into the first buffer are, latest first: the copy to offsets 0, 1 and 2, the
  symbol A at offset \<open>-1\<close>, and the two terminators at offsets 0 and 1. The write at
  offset \<open>-1\<close> is one byte before the buffer.
\<close>

theorem myers_diff_writes_before_buffer:
  "map_sum id (\<lambda>r. (ret r, written_a r, list_all (\<lambda>i. 0 \<le> i \<and> i < 3) (written_a r)))
     (myers_diff stack ''A'' myers_align_globally ''A'' 1 buf_a buf_b)
     = Inr (0, [0, 1, 2, - 1, 0, 1], False)"
  by (simp add: myers_eval upto_rec1)

section \<open>The index of diagnostic positions\<close>

lemma upt_0_Suc_shift: "[0 ..< Suc n] = 0 # map Suc [0 ..< n]"
  by (simp add: upt_conv_Cons map_Suc_upt del: upt_Suc)

lemma assembly_coord_0: "assembly_coord aln2 0 = 0"
  by (simp add: assembly_coord_def)

lemma assembly_coord_Suc:
  "assembly_coord (c2 # aln2) (Suc i) = (if c2 \<noteq> gap then 1 else 0) + assembly_coord aln2 i"
  by (simp add: assembly_coord_def)

lemma assembly_coord_nonneg: "0 \<le> assembly_coord aln2 i"
  by (simp add: assembly_coord_def)

lemma assembly_coord_not_neg: "\<not> assembly_coord aln2 i < 0"
  by (simp add: assembly_coord_def)

lemma in_index_Suc:
  "in_index (c1 # aln1) (c2 # aln2) tv c span_to key (Suc i) =
   in_index aln1 aln2 tv (if c2 \<noteq> gap then c + 1 else c) span_to key i"
  by (simp add: in_index_def assembly_coord_Suc add.assoc)

lemma in_index_columns:
  "filter (in_index (c1 # aln1) (c2 # aln2) tv c span_to key)
     [0 ..< min (length (c1 # aln1)) (length (c2 # aln2))] =
   (if in_index (c1 # aln1) (c2 # aln2) tv c span_to key 0 then [0] else []) @
   map Suc (filter (in_index aln1 aln2 tv (if c2 \<noteq> gap then c + 1 else c) span_to key)
     [0 ..< min (length aln1) (length aln2)])"
proof -
  have "min (length (c1 # aln1)) (length (c2 # aln2)) = Suc (min (length aln1) (length aln2))"
    by simp
  then show ?thesis
    by (simp only: upt_0_Suc_shift filter.simps filter_map comp_def in_index_Suc) simp
qed

lemma in_index_beyond:
  "key < c \<Longrightarrow> filter (in_index aln1 aln2 tv c span_to key) cols = []"
  by (auto simp: filter_empty_conv in_index_def assembly_coord_not_neg)

text \<open>
  The loop, column by column: a key holds the first column that \<open>in_index\<close> selects for
  it, and is left as it was when there is none.
\<close>

lemma mk_dp_loop_spec:
  "c \<le> span_to \<Longrightarrow>
   mk_dp_loop aln1 aln2 tv c span_to l key =
     (case filter (in_index aln1 aln2 tv c span_to key)
             [0 ..< min (length aln1) (length aln2)] of
        [] \<Rightarrow> l key
      | i # _ \<Rightarrow> Some (aln1 ! i, aln2 ! i))"
proof (induction aln1 aln2 tv c span_to l rule: mk_dp_loop.induct)
  case (1 c1 aln1 c2 aln2 tv c span_to l)
  define cols where "cols = [0 ..< min (length (c1 # aln1)) (length (c2 # aln2))]"
  define c' where "c' = (if c2 \<noteq> gap then c + 1 else c)"
  define l' where "l' = (if is_diagnostic c1 c2 \<and> (if tv then is_transversion c1 c2 else True)
             then l(c \<mapsto> (c1, c2)) else l)"
  define rest where "rest = filter (in_index aln1 aln2 tv c' span_to key)
                [0 ..< min (length aln1) (length aln2)]"
  define here where "here = filter (in_index (c1 # aln1) (c2 # aln2) tv c span_to key) cols"
  have split: "here = (if in_index (c1 # aln1) (c2 # aln2) tv c span_to key 0 then [0] else [])
      @ map Suc rest"
    unfolding here_def cols_def rest_def c'_def by (rule in_index_columns)
  show ?case
  proof (cases "c = span_to")
    case True
    have "here = []"
      unfolding here_def cols_def using True
      by (auto simp: filter_empty_conv in_index_def assembly_coord_not_neg simp del: upt_Suc)
    then have "(case here of [] \<Rightarrow> l key
                | i # _ \<Rightarrow> Some ((c1 # aln1) ! i, (c2 # aln2) ! i)) = l key"
      by simp
    moreover have "mk_dp_loop (c1 # aln1) (c2 # aln2) tv c span_to l key = l key"
      using True by simp
    ultimately show ?thesis
      unfolding here_def cols_def by (simp only:)
  next
    case False
    with "1.prems" have le: "c' \<le> span_to" and lt: "c < span_to"
      by (simp_all add: c'_def)
    have "mk_dp_loop (c1 # aln1) (c2 # aln2) tv c span_to l key =
          mk_dp_loop aln1 aln2 tv c' span_to l' key"
      using False by (simp add: c'_def l'_def)
    also have "\<dots> = (case rest of [] \<Rightarrow> l' key | i # _ \<Rightarrow> Some (aln1 ! i, aln2 ! i))"
      unfolding rest_def c'_def l'_def by (rule "1.IH" [OF False le [unfolded c'_def]])
    finally have lhs: "mk_dp_loop (c1 # aln1) (c2 # aln2) tv c span_to l key =
        (case rest of [] \<Rightarrow> l' key | i # _ \<Rightarrow> Some (aln1 ! i, aln2 ! i))" .
    show ?thesis
    proof (cases "in_index (c1 # aln1) (c2 # aln2) tv c span_to key 0")
      case True
      then have k: "key = c" and dg: "is_diagnostic c1 c2"
        and tvc: "if tv then is_transversion c1 c2 else True"
        by (auto simp: in_index_def assembly_coord_0 split: if_splits)
      from dg have "c2 \<noteq> gap" by (simp add: is_diagnostic_def)
      then have rest_nil: "rest = []"
        unfolding rest_def c'_def
        using k in_index_beyond [of key "c + 1" aln1 aln2 tv span_to] by simp
      have "l' key = Some (c1, c2)"
        using k dg tvc by (simp add: l'_def)
      with lhs rest_nil
      have left: "mk_dp_loop (c1 # aln1) (c2 # aln2) tv c span_to l key = Some (c1, c2)"
        by simp
      have "here = [0]"
        using split True rest_nil by simp
      then have "(case here of [] \<Rightarrow> l key
                  | i # _ \<Rightarrow> Some ((c1 # aln1) ! i, (c2 # aln2) ! i)) = Some (c1, c2)"
        by simp
      from left this [unfolded here_def cols_def] show ?thesis
        by (simp only:)
    next
      case False
      have same: "l' key = l key"
        using False lt by (auto simp: l'_def in_index_def assembly_coord_0)
      have here: "here = map Suc rest"
        using split False by simp
      have "(case here of [] \<Rightarrow> l key
              | i # _ \<Rightarrow> Some ((c1 # aln1) ! i, (c2 # aln2) ! i)) =
            (case rest of [] \<Rightarrow> l' key | i # _ \<Rightarrow> Some (aln1 ! i, aln2 ! i))"
        using here same by (cases rest) simp_all
      from lhs this [unfolded here_def cols_def] show ?thesis
        by (simp only:)
    qed
  qed
qed (simp_all)

text \<open>
  For a span that starts at 0 the index is the one the spec describes.
\<close>

lemma mk_dp_list_from_start:
  "0 \<le> span_to \<Longrightarrow>
   mk_dp_list aln1 aln2 tv 0 span_to = spec_dp_index aln1 aln2 tv 0 span_to"
proof (rule ext)
  fix key
  assume "0 \<le> span_to"
  then have "mk_dp_list aln1 aln2 tv 0 span_to key =
     (case filter (in_index aln1 aln2 tv 0 span_to key)
             [0 ..< min (length aln1) (length aln2)] of
        [] \<Rightarrow> None
      | i # _ \<Rightarrow> Some (aln1 ! i, aln2 ! i))"
    by (simp add: mk_dp_list_def mk_dp_loop_spec)
  moreover have "in_index aln1 aln2 tv 0 span_to key =
    (\<lambda>i. assembly_coord aln2 i = key \<and> 0 \<le> key \<and> key < span_to \<and>
                        is_diagnostic (aln1 ! i) (aln2 ! i) \<and>
                        (if tv then is_transversion (aln1 ! i) (aln2 ! i) else True))"
    using assembly_coord_nonneg [of aln2]
    by (auto simp: in_index_def fun_eq_iff)
  ultimately show "mk_dp_list aln1 aln2 tv 0 span_to key = spec_dp_index aln1 aln2 tv 0 span_to key"
    by (simp add: spec_dp_index_def)
qed

text \<open>
  Claim C3 says that the index is keyed by the true assembly coordinate of each column,
  and holds the diagnostic columns whose coordinate lies in the span, also for a span that
  does not start at 0. The loop starts its counter at \<open>span_from\<close> on the first column
  of the alignment: with the rows AA and GA and the span from 1 to 2, the code records
  column 0, whose coordinate is 0, under the key 1, where the index the claim describes
  is empty.
\<close>

theorem mk_dp_list_shifts_keys:
  "mk_dp_list ''AA'' ''GA'' False 1 2 = [1 \<mapsto> (CHR ''A'', CHR ''G'')] \<and>
   assembly_coord ''GA'' 0 = 0 \<and>
   spec_dp_index ''AA'' ''GA'' False 1 2 = Map.empty"
proof (intro conjI)
  show "mk_dp_list ''AA'' ''GA'' False 1 2 = [1 \<mapsto> (CHR ''A'', CHR ''G'')]"
    by (simp add: mk_dp_list_def is_diagnostic_def gap_def)
  show "assembly_coord ''GA'' 0 = 0"
    by (simp add: assembly_coord_def)
  show "spec_dp_index ''AA'' ''GA'' False 1 2 = Map.empty"
    by (rule ext)
       (simp add: spec_dp_index_def is_diagnostic_def gap_def assembly_coord_def upt_rec)
qed







section \<open>The classifier\<close>

text \<open>
  Claim C4, as amended: at a diagnostic position where the fragment base is the same in
  both of its alignments, the classifier votes with two checks that are the same test, of
  the assembly base for \<open>maybeClean\<close> and of the reference base for \<open>maybeDirt\<close>. A gap on
  either side is consistent; otherwise the base, folded from G to R and from C to Y when
  the ancient-DNA mode is on, must match the fragment base under the ambiguity alphabet.
  The folding is applied to the assembly base as it is to the reference base.
\<close>

theorem classify_position_folds_both_bases:
  assumes "is_diagnostic paln1 paln2" and "in_frag_v_ref = in_frag_v_ass"
  shows "classify_position adna paln1 paln2 in_ref in_frag_v_ref in_ass in_frag_v_ass kv =
     vote (in_ass = gap \<or> in_frag_v_ass = gap \<or>
             match (if adna then two_fold in_ass else in_ass) in_frag_v_ass)
          (in_ref = gap \<or> in_frag_v_ref = gap \<or>
             match (if adna then two_fold in_ref else in_ref) in_frag_v_ref)
          kv"
  using assms
  by (simp add: classify_position_def maybe_clean_def maybe_dirt_def consistent_def match_def)

text \<open>
  The theorem at the column C/T with the fragment base T. In the ancient-DNA mode the
  reference base C is folded to Y, both checks hold and nothing changes; without it the
  fragment matches the assembly only and is voted \<open>clean\<close>. At the column T/C with the
  fragment base T it is the assembly base that is folded: both checks hold in the
  ancient-DNA mode, and without it the fragment is voted \<open>dirt\<close>.
\<close>

theorem classify_position_folds_both_bases_witness:
  "is_diagnostic CHR ''C'' CHR ''T'' \<and> is_diagnostic CHR ''T'' CHR ''C'' \<and>
   classify_position True CHR ''C'' CHR ''T'' CHR ''C'' CHR ''T'' CHR ''T'' CHR ''T''
     (unknown, 0) = (unknown, 0) \<and>
   classify_position False CHR ''C'' CHR ''T'' CHR ''C'' CHR ''T'' CHR ''T'' CHR ''T''
     (unknown, 0) = (clean, 1) \<and>
   classify_position True CHR ''T'' CHR ''C'' CHR ''T'' CHR ''T'' CHR ''C'' CHR ''T''
     (unknown, 0) = (unknown, 0) \<and>
   classify_position False CHR ''T'' CHR ''C'' CHR ''T'' CHR ''T'' CHR ''C'' CHR ''T''
     (unknown, 0) = (dirt, 1)"
proof -
  have d1: "is_diagnostic CHR ''C'' CHR ''T''"
    by (simp add: is_diagnostic_def gap_def)
  have d2: "is_diagnostic CHR ''T'' CHR ''C''"
    by (simp add: is_diagnostic_def gap_def)
  show ?thesis
    using d1 d2
      classify_position_folds_both_bases
        [OF d1 refl, of True "CHR ''C''" "CHR ''T''" "CHR ''T''" "(unknown, 0)"]
      classify_position_folds_both_bases
        [OF d1 refl, of False "CHR ''C''" "CHR ''T''" "CHR ''T''" "(unknown, 0)"]
      classify_position_folds_both_bases
        [OF d2 refl, of True "CHR ''T''" "CHR ''T''" "CHR ''C''" "(unknown, 0)"]
      classify_position_folds_both_bases
        [OF d2 refl, of False "CHR ''T''" "CHR ''T''" "CHR ''C''" "(unknown, 0)"]
    by (simp add: match_def two_fold_def char_to_bitmap_def gap_def vote_def)
qed

text \<open>
  Claim C4 as stated fails: in the ancient-DNA mode the assembly base G is folded to R and
  is consistent with the fragment base A, which the plain match of G against A is not. At
  the column T/G a fragment that shows A is so voted \<open>clean\<close>; with the plain match it
  would match neither side.
\<close>

theorem maybe_clean_folds_assembly_base:
  "maybe_clean True CHR ''G'' CHR ''A'' \<noteq> match CHR ''G'' CHR ''A'' \<and>
   classify_position True CHR ''T'' CHR ''G'' CHR ''T'' CHR ''A'' CHR ''G'' CHR ''A''
     (unknown, 0) = (clean, 1)"
  by (simp add: maybe_clean_def maybe_dirt_def consistent_def two_fold_def match_def
        char_to_bitmap_def gap_def classify_position_def is_diagnostic_def vote_def)

text \<open>
  Claim C5: at a diagnostic position where the fragment base is the same in both of its
  alignments, the votes go up by one exactly when one of \<open>maybeClean\<close> and \<open>maybeDirt\<close>
  holds and the other does not; when neither holds the class becomes \<open>nonsense\<close> whatever
  it was; when both hold the class and the votes stay as they are. (When one holds, the
  class moves from \<open>unknown\<close> to that side, and from the other side to \<open>conflict\<close>.)
\<close>

theorem vote_at_diagnostic_position:
  assumes "is_diagnostic paln1 paln2" and "in_frag_v_ref = in_frag_v_ass"
  shows "classify_position adna paln1 paln2 in_ref in_frag_v_ref in_ass in_frag_v_ass
           (klass, votes) =
     (let mc = maybe_clean adna in_ass in_frag_v_ass;
          md = maybe_dirt adna in_ref in_frag_v_ref
      in (if mc = md then (if mc then klass else nonsense)
          else if mc then
            (if klass = unknown then clean else if klass = dirt then conflict else klass)
          else
            (if klass = unknown then dirt else if klass = clean then conflict else klass),
          if mc = md then votes else votes + 1))"
  using assms by (simp add: classify_position_def vote_def Let_def)

text \<open>
  The theorem at the column A/G with the fragment bases G (only \<open>maybeClean\<close>), T
  (neither) and R (both).
\<close>

theorem vote_at_diagnostic_position_witness:
  "is_diagnostic CHR ''A'' CHR ''G'' \<and>
   classify_position False CHR ''A'' CHR ''G'' CHR ''A'' CHR ''G'' CHR ''G'' CHR ''G''
     (unknown, 0) = (clean, 1) \<and>
   classify_position False CHR ''A'' CHR ''G'' CHR ''A'' CHR ''T'' CHR ''G'' CHR ''T''
     (clean, 1) = (nonsense, 1) \<and>
   classify_position False CHR ''A'' CHR ''G'' CHR ''A'' CHR ''R'' CHR ''G'' CHR ''R''
     (dirt, 2) = (dirt, 2)"
proof -
  have d: "is_diagnostic CHR ''A'' CHR ''G''"
    by (simp add: is_diagnostic_def gap_def)
  show ?thesis
    using d
      vote_at_diagnostic_position
        [OF d refl, of False "CHR ''A''" "CHR ''G''" "CHR ''G''" unknown 0]
      vote_at_diagnostic_position
        [OF d refl, of False "CHR ''A''" "CHR ''T''" "CHR ''G''" clean 1]
      vote_at_diagnostic_position
        [OF d refl, of False "CHR ''A''" "CHR ''R''" "CHR ''G''" dirt 2]
    by (simp add: maybe_clean_def maybe_dirt_def consistent_def char_to_bitmap_def gap_def)
qed

section \<open>Pairing and the summary\<close>

lemma tally_back:
  "segment s = CHR ''b'' \<Longrightarrow>
   tally (summary, bfrags) s = (summary, bfrags(frag_id s \<mapsto> (frag_klass s, frag_votes s)))"
  by (simp add: tally_def)

text \<open>
  Two caches that differ at one identifier only lead to the same counts, as long as no
  front half with that identifier is processed.
\<close>

lemma tally_all_cache_irrelevant:
  "\<forall>key. key \<noteq> fid \<longrightarrow> b1 key = b2 key \<Longrightarrow>
   \<forall>t \<in> set fs. \<not> (segment t = CHR ''f'' \<and> frag_id t = fid) \<Longrightarrow>
   fst (tally_all (summary, b1) fs) = fst (tally_all (summary, b2) fs)"
proof (induction fs arbitrary: summary b1 b2)
  case Nil
  then show ?case by (simp add: tally_all_def)
next
  case (Cons t fs)
  obtain s1 c1 where st1: "tally (summary, b1) t = (s1, c1)"
    by (cases "tally (summary, b1) t")
  obtain s2 c2 where st2: "tally (summary, b2) t = (s2, c2)"
    by (cases "tally (summary, b2) t")
  have no_front: "\<not> (segment t = CHR ''f'' \<and> frag_id t = fid)"
    using Cons.prems(2) by simp
  have same: "s1 = s2"
    using st1 st2 Cons.prems(1) no_front
    by (auto simp: tally_def Let_def split: if_splits option.splits)
  have agree: "\<forall>key. key \<noteq> fid \<longrightarrow> c1 key = c2 key"
    using st1 st2 Cons.prems(1)
    by (auto simp: tally_def Let_def split: if_splits option.splits)
  have rest: "\<forall>t \<in> set fs. \<not> (segment t = CHR ''f'' \<and> frag_id t = fid)"
    using Cons.prems(2) by simp
  have "fst (tally_all (s1, c1) fs) = fst (tally_all (s1, c2) fs)"
    using Cons.IH [OF agree rest] .
  then show ?case
    using st1 st2 same by (simp add: tally_all_def)
qed

text \<open>
  Claim C10: a fragment of segment role \<open>b\<close> is only stored, with its class and votes, in
  the cache of pending pairs, and no class count changes; so when no front half with its
  identifier follows, the counts at the end, and the estimate computed from them, are
  those of the run without it. The state before the fragment is arbitrary: it stands for
  whatever was processed earlier.
\<close>

theorem back_fragment_only_cached:
  assumes "segment s = CHR ''b''"
    and "\<forall>t \<in> set later. \<not> (segment t = CHR ''f'' \<and> frag_id t = frag_id s)"
  shows "tally (summary, bfrags) s =
           (summary, bfrags(frag_id s \<mapsto> (frag_klass s, frag_votes s))) \<and>
         fst (tally_all (summary, bfrags) (s # later)) =
           fst (tally_all (summary, bfrags) later) \<and>
         estimate (fst (tally_all (summary, bfrags) (s # later))) =
           estimate (fst (tally_all (summary, bfrags) later))"
proof -
  have step: "tally (summary, bfrags) s =
      (summary, bfrags(frag_id s \<mapsto> (frag_klass s, frag_votes s)))"
    using assms(1) by (rule tally_back)
  have "fst (tally_all (summary, bfrags(frag_id s \<mapsto> (frag_klass s, frag_votes s))) later) =
        fst (tally_all (summary, bfrags) later)"
    by (rule tally_all_cache_irrelevant) (use assms(2) in auto)
  then have "fst (tally_all (summary, bfrags) (s # later)) =
        fst (tally_all (summary, bfrags) later)"
    using step by (simp add: tally_all_def)
  then show ?thesis using step by simp
qed

text \<open>
  The theorem at a back half \<open>r1\<close> classified \<open>dirt\<close>, followed by a whole read \<open>r2\<close> and by
  a front half \<open>r3\<close> that has no back: the counts are those of the last two alone.
\<close>

theorem back_fragment_only_cached_witness:
  "segment \<lparr>frag_id = ''r1'', segment = CHR ''b'', frag_klass = dirt, frag_votes = 2\<rparr>
     = CHR ''b'' \<and>
   snd (tally initial
          \<lparr>frag_id = ''r1'', segment = CHR ''b'', frag_klass = dirt, frag_votes = 2\<rparr>) ''r1''
     = Some (dirt, 2) \<and>
   fst (tally_all initial
          [\<lparr>frag_id = ''r1'', segment = CHR ''b'', frag_klass = dirt, frag_votes = 2\<rparr>,
           \<lparr>frag_id = ''r2'', segment = CHR ''a'', frag_klass = clean, frag_votes = 1\<rparr>,
           \<lparr>frag_id = ''r3'', segment = CHR ''f'', frag_klass = clean, frag_votes = 1\<rparr>])
     = fst (tally_all initial
          [\<lparr>frag_id = ''r2'', segment = CHR ''a'', frag_klass = clean, frag_votes = 1\<rparr>,
           \<lparr>frag_id = ''r3'', segment = CHR ''f'', frag_klass = clean, frag_votes = 1\<rparr>]) \<and>
   fst (tally_all initial
          [\<lparr>frag_id = ''r1'', segment = CHR ''b'', frag_klass = dirt, frag_votes = 2\<rparr>,
           \<lparr>frag_id = ''r2'', segment = CHR ''a'', frag_klass = clean, frag_votes = 1\<rparr>,
           \<lparr>frag_id = ''r3'', segment = CHR ''f'', frag_klass = clean, frag_votes = 1\<rparr>]) dirt
     = 0"
  using back_fragment_only_cached
    [of "\<lparr>frag_id = ''r1'', segment = CHR ''b'', frag_klass = dirt, frag_votes = 2\<rparr>"
      "[\<lparr>frag_id = ''r2'', segment = CHR ''a'', frag_klass = clean, frag_votes = 1\<rparr>,
        \<lparr>frag_id = ''r3'', segment = CHR ''f'', frag_klass = clean, frag_votes = 1\<rparr>]"
      "\<lambda>klass. 0" Map.empty]
  by (simp add: initial_def tally_all_def tally_def)

subsection \<open>The arithmetic of the summary\<close>

text \<open>
  The rounding is the one of IEEE 754: \<^const>\<open>bits\<close> counts the binary digits, \<^const>\<open>ilog2\<close> is the
  binary exponent.
\<close>

lemma bits_0: "bits 0 = 0"
  by (simp add: bits.simps)

lemma bits_Suc_0: "bits (Suc 0) = 1"
  by (simp add: bits.simps [of "Suc 0"] bits_0)

lemma bits_nonneg: "0 \<le> bits n"
  by (induction n rule: bits.induct) (simp add: bits.simps)

lemma bits_pos: "0 < n \<Longrightarrow> 1 \<le> bits n"
  using bits_nonneg [of "n div 2"] by (simp add: bits.simps [of n])

lemma bits_bounds:
  "0 < n \<Longrightarrow> 2 ^ nat (bits n - 1) \<le> n \<and> n < 2 ^ nat (bits n)"
proof (induction n rule: bits.induct)
  case (1 n)
  show ?case
  proof (cases "n div 2 = 0")
    case True
    then have "n = Suc 0" using "1.prems" by auto
    then show ?thesis by (simp add: bits_Suc_0)
  next
    case False
    define m where "m = n div 2"
    define b where "b = nat (bits m - 1)"
    have mpos: "0 < m" using False by (simp add: m_def)
    have bm: "bits m = int b + 1"
      using bits_pos [OF mpos] by (simp add: b_def)
    have ih: "2 ^ b \<le> m \<and> m < 2 ^ Suc b"
      using "1.IH" [OF _ ] "1.prems" mpos bm unfolding m_def [symmetric]
      by (simp add: nat_add_distrib)
    have bn: "bits n = int b + 2"
      using "1.prems" bm by (simp add: bits.simps [of n] m_def)
    have "2 * m \<le> n" "n \<le> 2 * m + 1" by (simp_all add: m_def)
    then have "2 ^ Suc b \<le> n \<and> n < 2 ^ Suc (Suc b)"
      using ih by simp
    then show ?thesis
      by (simp add: bn nat_add_distrib)
  qed
qed

lemma pow2_powi: "pow2 e = 2 powi e"
  by (simp add: pow2_def power_int_def field_simps)

lemma pow2_pos: "0 < pow2 e"
  by (simp add: pow2_powi)

lemma pow2_add: "pow2 (a + b) = pow2 a * pow2 b"
  by (simp add: pow2_powi power_int_add)

lemma pow2_mono: "a \<le> b \<Longrightarrow> pow2 a \<le> pow2 b"
  by (simp add: pow2_powi power_int_increasing)

lemma pow2_nat: "pow2 (int n) = 2 ^ n"
  by (simp add: pow2_def)

lemma pow2_neg_nat: "pow2 (- int n) = 1 / 2 ^ n"
  by (simp add: pow2_powi power_int_minus field_simps)

lemma ilog2_bounds:
  assumes "0 < x"
  shows "pow2 (ilog2 x) \<le> x \<and> x < pow2 (ilog2 x + 1)"
proof (cases "1 \<le> x")
  case True
  define n where "n = nat \<lfloor>x\<rfloor>"
  define b where "b = nat (bits n - 1)"
  have npos: "0 < n" using True by (simp add: n_def)
  have bn: "bits n = int b + 1"
    using bits_pos [OF npos] by (simp add: b_def)
  have nb: "2 ^ b \<le> n \<and> n < 2 ^ Suc b"
    using bits_bounds [OF npos] bn by (simp add: nat_add_distrib)
  have lo: "real n \<le> x" using True by (simp add: n_def)
  have hi: "x < real n + 1" using True by (simp add: n_def)
  have il: "ilog2 x = int b"
    using True bn by (simp add: ilog2_def n_def)
  have "(2::real) ^ b \<le> real n" using nb
    by (metis of_nat_le_iff of_nat_numeral of_nat_power)
  then have a: "pow2 (int b) \<le> x"
    unfolding pow2_nat using lo by linarith
  have "n + 1 \<le> 2 ^ Suc b" using nb by simp
  then have "real (n + 1) \<le> real (2 ^ Suc b)" by (simp only: of_nat_le_iff)
  then have "x < 2 ^ Suc b" using hi by simp
  moreover have "int b + 1 = int (Suc b)" by simp
  ultimately have "x < pow2 (int b + 1)"
    by (simp only: pow2_nat)
  then show ?thesis
    using a by (simp only: il)
next
  case False
  define t where "t = 1 / x"
  define n where "n = nat (\<lceil>t\<rceil> - 1)"
  define b where "b = nat (bits n - 1)"
  have t1: "1 < t" using False assms by (simp add: t_def)
  have c2: "2 \<le> \<lceil>t\<rceil>" using t1 by linarith
  have npos: "0 < n" using c2 by (simp add: n_def)
  have bn: "bits n = int b + 1"
    using bits_pos [OF npos] by (simp add: b_def)
  have nb: "2 ^ b \<le> n \<and> n < 2 ^ Suc b"
    using bits_bounds [OF npos] bn by (simp add: nat_add_distrib)
  have lo: "real n < t" using c2 unfolding n_def by simp linarith
  have hi: "t \<le> real n + 1" using c2 unfolding n_def by simp
  have il: "ilog2 x = - int (Suc b)"
    using False bn by (simp add: ilog2_def n_def t_def)
  have a: "(2::real) ^ b < t"
  proof -
    have "(2::real) ^ b \<le> real n" using nb
      by (metis of_nat_le_iff of_nat_numeral of_nat_power)
    then show ?thesis using lo by linarith
  qed
  have b: "t \<le> 2 ^ Suc b"
  proof -
    have "n + 1 \<le> 2 ^ Suc b" using nb by simp
    then have "real (n + 1) \<le> real (2 ^ Suc b)" by (simp only: of_nat_le_iff)
    then show ?thesis using hi by simp
  qed
  have x: "x = 1 / t" by (simp add: t_def)
  have "1 / 2 ^ Suc b \<le> x"
    unfolding x using b t1 by (simp add: field_simps)
  moreover have "x < 1 / 2 ^ b"
    unfolding x using a t1 by (simp add: field_simps)
  moreover have "ilog2 x + 1 = - int b" by (simp add: il)
  ultimately show ?thesis
    by (simp only: il pow2_neg_nat)
qed


lemma pow2_strict_mono: "a < b \<Longrightarrow> pow2 a < pow2 b"
  by (simp add: pow2_powi power_int_strict_increasing)

lemma ilog2_unique:
  assumes "0 < x" and "pow2 e \<le> x" and "x < pow2 (e + 1)"
  shows "ilog2 x = e"
proof (rule ccontr)
  assume ne: "ilog2 x \<noteq> e"
  note b = ilog2_bounds [OF assms(1)]
  show False
  proof (cases "ilog2 x < e")
    case True
    then have "pow2 (ilog2 x + 1) \<le> pow2 e" by (intro pow2_mono) simp
    then show False using b assms(2) by simp
  next
    case False
    then have "pow2 (e + 1) \<le> pow2 (ilog2 x)" using ne by (intro pow2_mono) simp
    then show False using b assms(3) by simp
  qed
qed

text \<open>
  \<^const>\<open>isqrt\<close> is the integer part of the square root.
\<close>

lemma isqrt_bounds: "isqrt n * isqrt n \<le> n \<and> n < (isqrt n + 1) * (isqrt n + 1)"
proof (induction n rule: isqrt.induct)
  case (1 n)
  show ?case
  proof (cases "n < 2")
    case True
    then show ?thesis by (simp add: isqrt.simps [of n])
  next
    case False
    define q where "q = isqrt (n div 4)"
    define r where "r = 2 * q"
    have ih: "q * q \<le> n div 4 \<and> n div 4 < (q + 1) * (q + 1)"
      using "1.IH" False by (simp add: q_def)
    have lo: "r * r \<le> n"
    proof -
      have "r * r = 4 * (q * q)" by (simp add: r_def)
      also have "\<dots> \<le> 4 * (n div 4)" using ih by simp
      also have "\<dots> \<le> n" by simp
      finally show ?thesis .
    qed
    have hi: "n < (r + 2) * (r + 2)"
    proof -
      have "n div 4 + 1 \<le> (q + 1) * (q + 1)" using ih by simp
      then have "4 * (n div 4 + 1) \<le> 4 * ((q + 1) * (q + 1))" by simp
      moreover have "n < 4 * (n div 4 + 1)" by simp
      moreover have "4 * ((q + 1) * (q + 1)) = (r + 2) * (r + 2)"
        by (simp add: r_def algebra_simps)
      ultimately show ?thesis by simp
    qed
    have eq: "isqrt n = (if (r + 1) * (r + 1) \<le> n then r + 1 else r)"
      using False by (simp add: isqrt.simps [of n] Let_def r_def q_def)
    show ?thesis
    proof (cases "(r + 1) * (r + 1) \<le> n")
      case True
      then show ?thesis using hi by (simp add: eq)
    next
      case False
      then show ?thesis using lo by (simp add: eq)
    qed
  qed
qed

text \<open>
  \<^const>\<open>nearest_even\<close> is within one half of its argument, and even when exactly one half away.
\<close>

lemma nearest_even_close: "\<bar>real_of_int (nearest_even m) - m\<bar> \<le> 1 / 2"
  by (simp add: nearest_even_def Let_def)

lemma nearest_even_tie:
  "\<bar>real_of_int (nearest_even m) - m\<bar> = 1 / 2 \<Longrightarrow> even (nearest_even m)"
  by (simp add: nearest_even_def Let_def split: if_splits)


lemma isqrt_floor: "int (isqrt n) = \<lfloor>sqrt (real n)\<rfloor>"
proof -
  define r where "r = isqrt n"
  have b: "r * r \<le> n \<and> n < (r + 1) * (r + 1)"
    unfolding r_def by (rule isqrt_bounds)
  have "real (r * r) \<le> real n" using b by (simp only: of_nat_le_iff)
  then have "real r * real r \<le> real n" by simp
  then have lo: "real r \<le> sqrt (real n)"
    by (simp add: real_le_rsqrt power2_eq_square)
  have "real n < real ((r + 1) * (r + 1))" using b by (simp only: of_nat_less_iff)
  then have "real n < (real r + 1)\<^sup>2" by (simp add: power2_eq_square algebra_simps)
  then have hi: "sqrt (real n) < real r + 1"
    by (simp add: real_less_lsqrt)
  have "\<lfloor>sqrt (real n)\<rfloor> = int r"
    by (rule floor_unique) (use lo hi in simp_all)
  then show ?thesis
    by (simp add: r_def)
qed

lemma floor_sqrt_floor:
  assumes "0 \<le> s"
  shows "\<lfloor>sqrt s\<rfloor> = \<lfloor>sqrt (of_int \<lfloor>s\<rfloor>)\<rfloor>"
proof -
  define f where "f = \<lfloor>sqrt (of_int \<lfloor>s\<rfloor>)\<rfloor>"
  have s0: "0 \<le> \<lfloor>s\<rfloor>" using assms by simp
  have f0: "0 \<le> f" unfolding f_def using s0 by simp
  have "of_int f \<le> sqrt (of_int \<lfloor>s\<rfloor>)" unfolding f_def by simp
  also have "\<dots> \<le> sqrt s" by simp
  finally have lo: "of_int f \<le> sqrt s" .
  have "sqrt (of_int \<lfloor>s\<rfloor>) < of_int f + 1" unfolding f_def by linarith
  then have "of_int \<lfloor>s\<rfloor> < (of_int f + 1 :: real)\<^sup>2"
    using f0 s0 by (metis add_nonneg_nonneg of_int_0_le_iff real_sqrt_less_iff real_sqrt_abs abs_of_nonneg zero_le_one)
  then have "\<lfloor>s\<rfloor> < (f + 1)\<^sup>2"
    by (metis of_int_1 of_int_add of_int_less_iff of_int_power)
  then have "\<lfloor>s\<rfloor> + 1 \<le> (f + 1)\<^sup>2" by simp
  then have "of_int (\<lfloor>s\<rfloor> + 1) \<le> (of_int ((f + 1)\<^sup>2) :: real)" by (simp only: of_int_le_iff)
  then have "s < (of_int f + 1)\<^sup>2" by simp linarith
  then have hi: "sqrt s < of_int f + 1"
    using f0 by (simp add: real_less_lsqrt)
  have "\<lfloor>sqrt s\<rfloor> = f"
    by (rule floor_unique) (use lo hi in simp_all)
  then show ?thesis
    by (simp add: f_def)
qed


lemma nearest_even_sqrt:
  assumes "0 \<le> s" and "f = \<lfloor>sqrt s\<rfloor>"
  shows "nearest_even (sqrt s) =
    (if s < (of_int f + 1 / 2) * (of_int f + 1 / 2) then f
     else if (of_int f + 1 / 2) * (of_int f + 1 / 2) < s then f + 1
     else if even f then f else f + 1)"
proof -
  define h :: real where "h = of_int f + 1 / 2"
  have f0: "0 \<le> f" using assms by simp
  have h0: "0 \<le> h" using f0 by (simp add: h_def)
  have lt: "sqrt s < h \<longleftrightarrow> s < h * h"
  proof
    assume "sqrt s < h"
    then have "sqrt s * sqrt s < h * h"
      using assms(1) h0 by (intro mult_strict_mono') simp_all
    then show "s < h * h" using assms(1) by simp
  next
    assume "s < h * h"
    then have "s < h\<^sup>2" by (simp add: power2_eq_square)
    then show "sqrt s < h" using h0 by (simp add: real_less_lsqrt)
  qed
  have gt: "h < sqrt s \<longleftrightarrow> h * h < s"
  proof
    assume "h < sqrt s"
    then have "h * h < sqrt s * sqrt s"
      using h0 by (intro mult_strict_mono') simp_all
    then show "h * h < s" using assms(1) by simp
  next
    assume "h * h < s"
    then have "h\<^sup>2 < s" by (simp add: power2_eq_square)
    then show "h < sqrt s" using h0 by (simp add: real_less_rsqrt)
  qed
  have a: "sqrt s - of_int f < 1 / 2 \<longleftrightarrow> sqrt s < h" by (auto simp: h_def)
  have b: "1 / 2 < sqrt s - of_int f \<longleftrightarrow> h < sqrt s" by (auto simp: h_def)
  show ?thesis
    unfolding nearest_even_def Let_def assms(2) [symmetric]
      a [unfolded h_def] b [unfolded h_def] lt [unfolded h_def] gt [unfolded h_def] ..
qed

text \<open>
  \<^const>\<open>sqrt_rnd\<close> is the real square root rounded once, for every argument from the square of
  the smallest normal number upwards, so for every positive \<^verbatim>\<open>double\<close>.
\<close>

lemma sqrt_rnd_correct:
  assumes "pow2 (- 2044) \<le> x"
  shows "sqrt_rnd x = rnd (sqrt x)"
proof -
  have xpos: "0 < x" using assms pow2_pos [of "- 2044"] by linarith
  define E where "E = ilog2 x"
  define e where "e = E div 2"
  define u where "u = pow2 (e - 52)"
  define s where "s = x / (u * u)"
  define f where "f = \<lfloor>sqrt s\<rfloor>"
  note xb = ilog2_bounds [OF xpos, folded E_def]
  have upos: "0 < u" by (simp add: u_def pow2_pos)
  have E_lo: "- 2044 \<le> E"
  proof (rule ccontr)
    assume "\<not> - 2044 \<le> E"
    then have "pow2 (E + 1) \<le> pow2 (- 2044)" by (intro pow2_mono) simp
    then show False using xb assms by simp
  qed
  have e_lo: "- 1022 \<le> e" using E_lo by (simp add: e_def)
  have "pow2 (2 * e) \<le> pow2 E" by (intro pow2_mono) (simp add: e_def)
  then have lo2: "pow2 e * pow2 e \<le> x"
    using xb by (simp add: pow2_add [symmetric])
  have "pow2 (E + 1) \<le> pow2 (2 * (e + 1))" by (intro pow2_mono) (simp add: e_def)
  then have hi2: "x < pow2 (e + 1) * pow2 (e + 1)"
    using xb by (simp add: pow2_add [symmetric])
  have lo: "pow2 e \<le> sqrt x"
    using lo2 pow2_pos [of e] by (simp add: real_le_rsqrt power2_eq_square)
  have hi: "sqrt x < pow2 (e + 1)"
    using hi2 pow2_pos [of "e + 1"] by (simp add: real_less_lsqrt power2_eq_square)
  have sx: "0 < sqrt x" using xpos by simp
  have il: "ilog2 (sqrt x) = e"
    using sx lo hi by (rule ilog2_unique)
  have mx: "max e (- 1022) = e"
    using e_lo by simp
  have r: "rnd (sqrt x) = of_int (nearest_even (sqrt x / u)) * u"
    using sx by (simp add: rnd_def il mx u_def Let_def)
  have s0: "0 \<le> s" using xpos upos by (simp add: s_def)
  have ss: "sqrt x / u = sqrt s"
    using upos by (simp add: s_def real_sqrt_divide real_sqrt_mult)
  have ff: "int (isqrt (nat \<lfloor>s\<rfloor>)) = f"
    using s0 by (simp add: isqrt_floor f_def floor_sqrt_floor [OF s0])
  have "sqrt_rnd x =
      of_int (if s < (of_int f + 1 / 2) * (of_int f + 1 / 2) then f
              else if (of_int f + 1 / 2) * (of_int f + 1 / 2) < s then f + 1
              else if even f then f else f + 1) * u"
    unfolding sqrt_rnd_def Let_def E_def [symmetric] e_def [symmetric] u_def [symmetric]
      s_def [symmetric] ff
    using xpos by simp
  also have "\<dots> = of_int (nearest_even (sqrt s)) * u"
    by (simp only: nearest_even_sqrt [OF s0 f_def])
  finally show ?thesis
    by (simp only: r ss)
qed


text \<open>
  \<^const>\<open>rnd\<close> returns a value with a significand of at most 53 bits that is within half a unit
  in the last place of its argument.
\<close>

lemma rnd_nearest:
  assumes "x \<noteq> 0"
  shows "\<exists>k. rnd x = of_int k * pow2 (max (ilog2 \<bar>x\<bar>) (- 1022) - 52) \<and> \<bar>k\<bar> \<le> 2 ^ 53 \<and>
    \<bar>rnd x - x\<bar> \<le> pow2 (max (ilog2 \<bar>x\<bar>) (- 1022) - 52) / 2"
proof -
  define e where "e = max (ilog2 \<bar>x\<bar>) (- 1022)"
  define u where "u = pow2 (e - 52)"
  define k where "k = nearest_even (x / u)"
  have upos: "0 < u" by (simp add: u_def pow2_pos)
  have r: "rnd x = of_int k * u"
    using assms by (simp add: rnd_def Let_def e_def u_def k_def)
  have c: "\<bar>of_int k - x / u\<bar> \<le> 1 / 2"
    unfolding k_def by (rule nearest_even_close)
  have "of_int k * u - x = (of_int k - x / u) * u"
    using upos by (simp add: field_simps)
  then have "\<bar>of_int k * u - x\<bar> = \<bar>of_int k - x / u\<bar> * \<bar>u\<bar>"
    by (simp only: abs_mult)
  also have "\<dots> = \<bar>of_int k - x / u\<bar> * u"
    using upos by simp
  also have "\<dots> \<le> 1 / 2 * u"
    using c upos by (intro mult_right_mono) simp_all
  finally have close: "\<bar>rnd x - x\<bar> \<le> u / 2"
    by (simp add: r)
  have xpos: "0 < \<bar>x\<bar>" using assms by simp
  have "\<bar>x\<bar> < pow2 (ilog2 \<bar>x\<bar> + 1)"
    using ilog2_bounds [OF xpos] by simp
  also have "\<dots> \<le> pow2 (e + 1)"
    by (intro pow2_mono) (simp add: e_def)
  also have "\<dots> = 2 ^ 53 * u"
  proof -
    have "e + 1 = 53 + (e - 52)" by simp
    then have "pow2 (e + 1) = pow2 53 * pow2 (e - 52)"
      by (simp only: pow2_add)
    then show ?thesis by (simp add: u_def pow2_def)
  qed
  finally have "\<bar>x\<bar> / u < 2 ^ 53"
    using upos by (simp add: pos_divide_less_eq)
  then have "\<bar>x / u\<bar> < 2 ^ 53"
    using upos by simp
  then have "\<bar>real_of_int k\<bar> < 2 ^ 53 + 1"
    using c by linarith
  then have "real_of_int \<bar>k\<bar> < real_of_int (2 ^ 53 + 1)"
    by simp
  then have "\<bar>k\<bar> < 2 ^ 53 + 1"
    by (simp only: of_int_less_iff)
  then have kb: "\<bar>k\<bar> \<le> 2 ^ 53" by simp
  show ?thesis
    using r kb close unfolding u_def e_def by blast
qed

text \<open>The definitions that evaluate the arithmetic on numerals.\<close>

lemmas binary64_eval = rnd_def ilog2_def pow2_def nearest_even_def bits.simps Let_def
  sqrt_rnd_def isqrt.simps fin64_def DBL_MAX_def dsub_def

text \<open>
  Claim C7 says that with no \<open>dirt\<close> and no \<open>clean\<close> fragment the estimate is reported as
  undefined, with no division by \<open>n\<close> and no NaN printed. The summary has no such case:
  the division by \<open>n\<close> is unconditional, and with both counts at 0, as after a run over no
  fragments, the three numbers it prints are NaN.
\<close>

theorem estimate_of_no_votes_is_nan:
  "estimate (fst (tally_all initial [])) = (NaN, NaN, NaN) \<and> wilson 0 0 = (NaN, NaN, NaN)"
  by (simp add: wilson_def dsub_def estimate_def tally_all_def initial_def fin64_def rnd_def
        DBL_MAX_def)

text \<open>
  Claim C9 says that for every pair of counts with \<open>n > 0\<close> the three numbers satisfy
  \<open>0 \<le> lower \<le> p \<le> upper \<le> 100\<close>. Over the reals the bounds meet the limits exactly at
  the edges: with no \<open>dirt\<close> fragment the lower bound is 0, with no \<open>clean\<close> fragment the
  upper bound is 100. The summary computes them in \<^verbatim>\<open>double\<close> and does not clamp them: with
  0 \<open>dirt\<close> and 5 \<open>clean\<close> fragments the rounded \<open>w\<close> exceeds the rounded \<open>c\<close> by one unit in
  the last place and the lower bound is negative; with 5 \<open>dirt\<close> and no \<open>clean\<close> fragment
  the upper bound is greater than 100; with 8 \<open>dirt\<close> and no \<open>clean\<close> fragment the upper
  bound is less than the estimate, which is 100.
\<close>

theorem wilson_bounds_leave_range:
  "wilson 0 5 =
     (Fin (- (3979412333608397 / 2 ^ 100)), Fin 0, Fin (6114924168316007 / 2 ^ 47)) \<and>
   \<not> spec_wilson_bounds (wilson 0 5) \<and>
   wilson 5 0 =
     (Fin (3979412333608397 / 2 ^ 46), Fin 100, Fin (7036874417766401 / 2 ^ 46)) \<and>
   \<not> spec_wilson_bounds (wilson 5 0) \<and>
   wilson 8 0 =
     (Fin (594250305513309 / 2 ^ 43), Fin 100, Fin (7036874417766399 / 2 ^ 46)) \<and>
   \<not> spec_wilson_bounds (wilson 8 0)"
proof -
  have low: "wilson 0 5 =
      (Fin (- (3979412333608397 / 2 ^ 100)), Fin 0, Fin (6114924168316007 / 2 ^ 47))"
    by (simp add: wilson_def binary64_eval)
  have high: "wilson 5 0 =
      (Fin (3979412333608397 / 2 ^ 46), Fin 100, Fin (7036874417766401 / 2 ^ 46))"
    by (simp add: wilson_def binary64_eval)
  have below: "wilson 8 0 =
      (Fin (594250305513309 / 2 ^ 43), Fin 100, Fin (7036874417766399 / 2 ^ 46))"
    by (simp add: wilson_def binary64_eval)
  show ?thesis
    unfolding low high below by (simp add: spec_wilson_bounds_def)
qed

end
